theory Spec2Isabelle
  imports Complex_Main "HOL-Library.AList" "HOL-Library.Char_ord" "HOL-Library.List_Lexorder"
begin

section \<open>The GatomIA code analyzer (codewiki analyzer)\<close>

text \<open>
  The analyzer reads two JSON documents, a nested module tree and a flat dependency
  graph, and derives a flat module index, a component map with reverse dependencies,
  and several analyses over them. Python dictionaries keep insertion order and have
  unique keys: a dictionary is modelled as an association list, a store
  \<open>d[k] = v\<close> as \<^const>\<open>AList.update\<close> (replace in place, or append a new key at the end)
  and a lookup as \<^const>\<open>map_of\<close>.
\<close>

subsection \<open>Input documents\<close>

text \<open>
  A node of the module tree. A missing \<open>components\<close> or \<open>children\<close> key reads as the
  empty collection (\<open>module_data.get("components", [])\<close>), so both fields are plain lists.
\<close>

datatype module_data =
  ModuleData (components_in: "string list") (children_in: "(string \<times> module_data) list")

type_synonym module_tree = "(string \<times> module_data) list"

text \<open>An entry of the dependency graph; every key is optional (\<open>comp_data.get(key, default)\<close>).\<close>

record comp_data =
  id_in :: "string option"
  name_in :: "string option"
  component_type_in :: "string option"
  file_path_in :: "string option"
  relative_path_in :: "string option"
  depends_on_in :: "string list option"

type_synonym dependency_graph = "(string \<times> comp_data) list"

subsection \<open>Derived structures\<close>

record parsed_module =
  path :: string
  components :: "string list"
  children :: "(string \<times> module_data) list"
  parent :: "string option"
  is_leaf :: bool
  level :: nat

record parse_result =
  modules :: "(string \<times> parsed_module) list"
  leaf_modules :: "string list"
  parent_modules :: "string list"
  root_modules :: "string list"
  component_to_module :: "(string \<times> string) list"

record component =
  id_c :: string
  name :: string
  component_type :: string
  file_path :: string
  relative_path :: string
  depends_on :: "string list"
  depended_by :: "string list"
  module_c :: "string option"
  dependency_count :: nat
  dependent_count :: nat

type_synonym component_map = "(string \<times> component) list"

text \<open>
  The state of a \<open>GatomiaAnalyzer\<close> after its constructor: the three parsed structures.
  The two loaded documents are the arguments of the constructor, and no method changes
  the state afterwards.
\<close>

record analyzer =
  parsed_tree :: parse_result
  component_map :: component_map
  reverse_deps :: "(string \<times> string list) list"

datatype py_error = ValueError

subsection \<open>parse_module_tree\<close>

definition empty_result :: parse_result where
  "empty_result = \<lparr>modules = [], leaf_modules = [], parent_modules = [],
     root_modules = [], component_to_module = []\<rparr>"

text \<open>
  The nested function \<open>traverse\<close>: the \<open>for\<close> loop over the items of a dictionary is the
  recursion over the association list, the mutated \<open>result\<close> is passed along, and the
  level is a natural number (it starts at 0 and is only ever incremented).
\<close>

function traverse :: "module_tree \<Rightarrow> string option \<Rightarrow> nat \<Rightarrow> parse_result \<Rightarrow> parse_result" where
  "traverse [] parent_path lvl result = result"
| "traverse ((module_path, ModuleData comps chs) # rest) parent_path lvl result =
    (let leaf = (length chs = 0);
         result = result\<lparr>modules := AList.update module_path
            \<lparr>path = module_path, components = comps, children = chs,
             parent = parent_path, is_leaf = leaf, level = lvl\<rparr> (modules result)\<rparr>;
         result = (if leaf then result\<lparr>leaf_modules := leaf_modules result @ [module_path]\<rparr>
                   else result\<lparr>parent_modules := parent_modules result @ [module_path]\<rparr>);
         result = (if parent_path = None
                   then result\<lparr>root_modules := root_modules result @ [module_path]\<rparr>
                   else result);
         result = foldl (\<lambda>r component_id. r\<lparr>component_to_module :=
                     AList.update component_id module_path (component_to_module r)\<rparr>) result comps;
         result = (if chs \<noteq> [] then traverse chs (Some module_path) (lvl + 1) result else result)
     in traverse rest parent_path lvl result)"
  by pat_completeness auto
termination
  by (relation "measure (\<lambda>(t, _, _, _). size_list (size_prod (\<lambda>_. 0) size) t)") auto

definition parse_module_tree :: "module_tree \<Rightarrow> parse_result" where
  "parse_module_tree module_tree = traverse module_tree None 0 empty_result"

subsection \<open>build_component_map and build_reverse_dependencies\<close>

text \<open>\<open>s.split(sep)\<close> for a one-character separator; the result is never empty.\<close>

fun split_sep :: "char \<Rightarrow> string \<Rightarrow> string list" where
  "split_sep sep [] = [[]]"
| "split_sep sep (c # cs) =
    (let r = split_sep sep cs in if c = sep then [] # r else (c # hd r) # tl r)"

definition get_default :: "'a option \<Rightarrow> 'a \<Rightarrow> 'a" where
  "get_default v d = (case v of None \<Rightarrow> d | Some x \<Rightarrow> x)"

text \<open>The record stored for one entry of the dependency graph.\<close>

definition new_component :: "string \<Rightarrow> comp_data \<Rightarrow> component" where
  "new_component comp_id cd =
     \<lparr>id_c = get_default (id_in cd) comp_id,
      name = get_default (name_in cd) (last (split_sep CHR ''.'' comp_id)),
      component_type = get_default (component_type_in cd) ''unknown'',
      file_path = get_default (file_path_in cd) [],
      relative_path = get_default (relative_path_in cd) [],
      depends_on = get_default (depends_on_in cd) [],
      depended_by = [],
      module_c = None,
      dependency_count = length (get_default (depends_on_in cd) []),
      dependent_count = 0\<rparr>"

text \<open>
  The body of the second loop: the owning module, when \<open>component_to_module\<close> has one,
  is written into the record already stored under \<open>comp_id\<close>.
\<close>

definition attach_module :: "parse_result \<Rightarrow> component_map \<Rightarrow> string \<Rightarrow> component_map" where
  "attach_module ptree comp_map comp_id =
    (case map_of (component_to_module ptree) comp_id of
       Some mp \<Rightarrow> AList.map_entry comp_id (\<lambda>c. c\<lparr>module_c := Some mp\<rparr>) comp_map
     | None \<Rightarrow> comp_map)"

text \<open>
  \<open>self.parsed_tree\<close> is a dictionary with five keys, hence always true as a condition,
  and the second loop always runs.
\<close>

definition build_component_map :: "dependency_graph \<Rightarrow> parse_result \<Rightarrow> component_map" where
  "build_component_map dependency_graph ptree =
    (let comp_map = foldl (\<lambda>m (comp_id, cd). AList.update comp_id (new_component comp_id cd) m)
                      [] dependency_graph
     in foldl (attach_module ptree) comp_map (map fst comp_map))"

text \<open>\<open>d[k].append(v)\<close> on a \<open>defaultdict(list)\<close>.\<close>

definition append_to :: "'k \<Rightarrow> 'v \<Rightarrow> ('k \<times> 'v list) list \<Rightarrow> ('k \<times> 'v list) list" where
  "append_to k v d = AList.update k (get_default (map_of d k) [] @ [v]) d"

text \<open>The body of the first loop: the edges of one component, reversed.\<close>

definition add_edges ::
  "(string \<times> string list) list \<Rightarrow> string \<times> component \<Rightarrow> (string \<times> string list) list" where
  "add_edges rv item =
    (case item of (comp_id, comp_info) \<Rightarrow>
       foldl (\<lambda>rv dep_id. append_to dep_id comp_id rv) rv (depends_on comp_info))"

text \<open>The body of the second loop: the dependents of one target, if it is a component.\<close>

definition set_dependents :: "component_map \<Rightarrow> string \<times> string list \<Rightarrow> component_map" where
  "set_dependents cm item =
    (case item of (comp_id, dependents) \<Rightarrow>
       if map_of cm comp_id \<noteq> None
       then AList.map_entry comp_id
              (\<lambda>c. c\<lparr>depended_by := dependents, dependent_count := length dependents\<rparr>) cm
       else cm)"

text \<open>
  Returns the reverse map together with the component map, whose records the second
  loop mutates. An empty component map is false as a condition.
\<close>

definition build_reverse_dependencies ::
  "component_map \<Rightarrow> (string \<times> string list) list \<times> component_map" where
  "build_reverse_dependencies cm =
    (if cm \<noteq> [] then
       (let reverse = foldl add_edges [] cm;
            cm' = foldl set_dependents cm reverse
        in (reverse, cm'))
     else ([], cm))"

text \<open>The constructor: \<open>_parse\<close> runs the three builders in order.\<close>

definition init_analyzer :: "module_tree \<Rightarrow> dependency_graph \<Rightarrow> analyzer" where
  "init_analyzer module_tree dependency_graph =
    (let ptree = parse_module_tree module_tree;
         cm = build_component_map dependency_graph ptree;
         (rv, cm') = build_reverse_dependencies cm
     in \<lparr>parsed_tree = ptree, component_map = cm', reverse_deps = rv\<rparr>)"

subsection \<open>get_processing_order\<close>

text \<open>\<open>max\<close> of a sequence raises \<open>ValueError\<close> when the sequence is empty.\<close>

definition py_max :: "nat list \<Rightarrow> py_error + nat" where
  "py_max xs = (case xs of [] \<Rightarrow> Inl ValueError | x # ys \<Rightarrow> Inr (foldl max x ys))"

text \<open>The list comprehension of the loop body: the paths of one level, in dictionary order.\<close>

definition level_modules :: "parse_result \<Rightarrow> nat \<Rightarrow> string list" where
  "level_modules ptree lvl = map fst (filter (\<lambda>(p, info). level info = lvl) (modules ptree))"

text \<open>
  The parsed tree is never false as a condition, so it is not parsed again;
  \<open>range(max_level, -1, -1)\<close> is \<open>max_level, \<dots>, 0\<close>.
\<close>

definition get_processing_order :: "analyzer \<Rightarrow> py_error + string list list" where
  "get_processing_order self =
    (case py_max (map (\<lambda>(p, m). level m) (modules (parsed_tree self))) of
       Inl e \<Rightarrow> Inl e
     | Inr max_level \<Rightarrow>
         Inr (foldl (\<lambda>order lvl.
                (let lm = level_modules (parsed_tree self) lvl
                 in if lm \<noteq> [] then order @ [lm] else order))
              [] (rev [0..<Suc max_level])))"

subsection \<open>analyze_dependencies\<close>

text \<open>
  An entry of the four result lists. The key \<open>module\<close> is present in external entries
  only, and may then hold \<open>None\<close>.
\<close>

record dep_info =
  id_d :: string
  name_d :: string
  type_d :: string
  module_d :: "string option option"

record dependency_analysis =
  error_a :: "string option"
  internal_dependencies :: "dep_info list"
  external_dependencies :: "dep_info list"
  internal_dependents :: "dep_info list"
  external_dependents :: "dep_info list"
  dependency_modules :: "string list"
  dependent_modules :: "string list"

text \<open>
  One pass of either classification loop (the loop over \<open>depends_on\<close> and the loop
  over \<open>depended_by\<close> are the same code). The accumulator holds the internal list, the
  external list and the set of modules, kept as a duplicate-free list. A module is added
  to the set only when it is true as a condition: neither \<open>None\<close> nor the empty string.
\<close>

definition classify_step ::
  "component_map \<Rightarrow> string option \<Rightarrow> dep_info list \<times> dep_info list \<times> string list
     \<Rightarrow> string \<Rightarrow> dep_info list \<times> dep_info list \<times> string list" where
  "classify_step cm comp_module acc dep_id =
    (case acc of (internal, external, mods) \<Rightarrow>
      (case map_of cm dep_id of
         None \<Rightarrow> acc
       | Some dep_comp \<Rightarrow>
          (let dep_info = \<lparr>id_d = dep_id, name_d = name dep_comp,
                            type_d = component_type dep_comp, module_d = None\<rparr>
           in if module_c dep_comp = comp_module
              then (internal @ [dep_info], external, mods)
              else (internal,
                    external @ [dep_info\<lparr>module_d := Some (module_c dep_comp)\<rparr>],
                    (case module_c dep_comp of
                       None \<Rightarrow> mods
                     | Some mp \<Rightarrow> if mp \<noteq> [] then List.insert mp mods else mods)))))"

text \<open>
  The guard \<open>not self.component_map or component_id not in self.component_map\<close> selects
  the error record; a proper result has no \<open>error\<close> key (\<open>None\<close> here). The sets of
  modules are returned sorted.
\<close>

definition analyze_dependencies :: "analyzer \<Rightarrow> string \<Rightarrow> dependency_analysis" where
  "analyze_dependencies self component_id =
    (case (if component_map self = [] then None
           else map_of (component_map self) component_id) of
       None \<Rightarrow>
         \<lparr>error_a = Some (''Component '' @ component_id @ '' not found''),
          internal_dependencies = [], external_dependencies = [],
          internal_dependents = [], external_dependents = [],
          dependency_modules = [], dependent_modules = []\<rparr>
     | Some comp_info \<Rightarrow>
         (let comp_module = module_c comp_info;
              (internal_deps, external_deps, dep_modules) =
                 foldl (classify_step (component_map self) comp_module) ([], [], [])
                   (depends_on comp_info);
              (internal_dependents', external_dependents', dependent_modules') =
                 foldl (classify_step (component_map self) comp_module) ([], [], [])
                   (depended_by comp_info)
          in \<lparr>error_a = None,
              internal_dependencies = internal_deps, external_dependencies = external_deps,
              internal_dependents = internal_dependents',
              external_dependents = external_dependents',
              dependency_modules = sort dep_modules,
              dependent_modules = sort dependent_modules'\<rparr>))"

subsection \<open>analyze_module_dependencies\<close>

record edge =
  from_e :: string
  to_e :: string
  type_e :: string

record relationship =
  from_component :: string
  to_component :: string

record external_dep =
  target_module :: string
  relationships :: "relationship list"

record external_dependent =
  source_module :: string
  relationships_s :: "relationship list"

text \<open>
  The cohesion score is a Python float: either the literal \<open>0.0\<close> or the true division
  \<open>a / b\<close> of two integers, which is the double nearest to the exact quotient. The
  model keeps the expression; \<open>float_value rnd\<close> reads it under a rounding function
  \<open>rnd\<close> from the reals to the floating-point numbers.
\<close>

datatype py_float = FloatZero | IntTrueDiv nat nat

fun float_value :: "(real \<Rightarrow> real) \<Rightarrow> py_float \<Rightarrow> real" where
  "float_value rnd FloatZero = 0"
| "float_value rnd (IntTrueDiv a b) = rnd (real a / real b)"

record complexity =
  component_count :: nat
  internal_edge_count :: nat
  external_edge_count :: nat
  cohesion_score :: py_float

record module_analysis =
  module_m :: string
  components_m :: "string list"
  internal_dependencies_m :: "edge list"
  external_dependencies_m :: "external_dep list"
  external_dependents_m :: "external_dependent list"
  complexity_m :: complexity

datatype module_result = ModuleError string | ModuleAnalysis module_analysis

type_synonym grouped = "(string \<times> relationship list) list"

text \<open>The body of the loop over \<open>comp_info["depends_on"]\<close>.\<close>

definition dep_step ::
  "component_map \<Rightarrow> string \<Rightarrow> string \<Rightarrow> edge list \<times> grouped \<Rightarrow> string \<Rightarrow> edge list \<times> grouped" where
  "dep_step cm module_path comp_id acc dep_id =
    (case acc of (internal_deps, external_deps_by_module) \<Rightarrow>
      (case map_of cm dep_id of
         None \<Rightarrow> acc
       | Some dep_comp \<Rightarrow>
           if module_c dep_comp = Some module_path
           then (internal_deps @ [\<lparr>from_e = comp_id, to_e = dep_id, type_e = ''depends_on''\<rparr>],
                 external_deps_by_module)
           else (case module_c dep_comp of
                   None \<Rightarrow> acc
                 | Some dep_module \<Rightarrow>
                     if dep_module \<noteq> []
                     then (internal_deps,
                           append_to dep_module
                             \<lparr>from_component = comp_id, to_component = dep_id\<rparr>
                             external_deps_by_module)
                     else acc)))"

text \<open>The body of the loop over \<open>comp_info["depended_by"]\<close>.\<close>

definition dependent_step ::
  "component_map \<Rightarrow> string \<Rightarrow> string \<Rightarrow> grouped \<Rightarrow> string \<Rightarrow> grouped" where
  "dependent_step cm module_path comp_id external_dependents_by_module dependent_id =
    (case map_of cm dependent_id of
       None \<Rightarrow> external_dependents_by_module
     | Some dependent_comp \<Rightarrow>
         (case module_c dependent_comp of
            None \<Rightarrow> external_dependents_by_module
          | Some dependent_module \<Rightarrow>
              if dependent_module \<noteq> [] \<and> dependent_module \<noteq> module_path
              then append_to dependent_module
                     \<lparr>from_component = dependent_id, to_component = comp_id\<rparr>
                     external_dependents_by_module
              else external_dependents_by_module))"

text \<open>The body of the loop over the module's components.\<close>

definition comp_step ::
  "component_map \<Rightarrow> string \<Rightarrow> edge list \<times> grouped \<times> grouped \<Rightarrow> string
     \<Rightarrow> edge list \<times> grouped \<times> grouped" where
  "comp_step cm module_path acc comp_id =
    (case acc of (internal_deps, ext_deps, ext_dependents) \<Rightarrow>
      (case (if cm = [] then None else map_of cm comp_id) of
         None \<Rightarrow> acc
       | Some comp_info \<Rightarrow>
          (let (internal_deps', ext_deps') =
                 foldl (dep_step cm module_path comp_id) (internal_deps, ext_deps)
                   (depends_on comp_info);
               ext_dependents' =
                 foldl (dependent_step cm module_path comp_id) ext_dependents
                   (depended_by comp_info)
           in (internal_deps', ext_deps', ext_dependents'))))"

definition analyze_module_dependencies :: "analyzer \<Rightarrow> string \<Rightarrow> module_result" where
  "analyze_module_dependencies self module_path =
    (case map_of (modules (parsed_tree self)) module_path of
       None \<Rightarrow> ModuleError (''Module '' @ module_path @ '' not found'')
     | Some module_info \<Rightarrow>
        (let comps = components module_info;
             (internal_deps, external_deps_by_module, external_dependents_by_module) =
                foldl (comp_step (component_map self) module_path) ([], [], []) comps;
             external_deps = map (\<lambda>(md, rels). \<lparr>target_module = md, relationships = rels\<rparr>)
                               external_deps_by_module;
             external_dependents' =
                map (\<lambda>(md, rels). \<lparr>source_module = md, relationships_s = rels\<rparr>)
                  external_dependents_by_module;
             external_edges = sum_list (map (\<lambda>d. length (relationships d)) external_deps);
             internal_edges = length internal_deps;
             total_edges = internal_edges + external_edges;
             cplx = \<lparr>component_count = length comps,
                     internal_edge_count = internal_edges,
                     external_edge_count = external_edges,
                     cohesion_score = (if total_edges > 0
                                       then IntTrueDiv internal_edges total_edges
                                       else FloatZero)\<rparr>
         in ModuleAnalysis
              \<lparr>module_m = module_path, components_m = comps,
               internal_dependencies_m = internal_deps,
               external_dependencies_m = external_deps,
               external_dependents_m = external_dependents',
               complexity_m = cplx\<rparr>))"

subsection \<open>infer_component_purpose\<close>

record metrics =
  dependencies_x :: nat
  dependents_x :: nat
  type_x :: string

record purpose =
  primary_purpose :: string
  role :: string
  confidence :: real
  reasoning :: "string list"
  metrics_p :: metrics

datatype purpose_result = PurposeError string | Purpose purpose

text \<open>\<open>str.lower\<close> on the ASCII letters (the name fragments of the table are ASCII).\<close>

definition lower_char :: "char \<Rightarrow> char" where
  "lower_char c =
    (if CHR ''A'' \<le> c \<and> c \<le> CHR ''Z'' then char_of (of_char c + (32::nat)) else c)"

definition lower :: "string \<Rightarrow> string" where
  "lower s = map lower_char s"

text \<open>\<open>pattern in s\<close>: the pattern occurs as a contiguous substring.\<close>

fun starts_with :: "string \<Rightarrow> string \<Rightarrow> bool" where
  "starts_with [] s = True"
| "starts_with (p # ps) [] = False"
| "starts_with (p # ps) (c # cs) = (p = c \<and> starts_with ps cs)"

fun contains :: "string \<Rightarrow> string \<Rightarrow> bool" where
  "contains pat [] = (pat = [])"
| "contains pat (c # cs) = (starts_with pat (c # cs) \<or> contains pat cs)"

text \<open>\<open>str(n)\<close> for a count: its decimal digits.\<close>

fun str_nat :: "nat \<Rightarrow> string" where
  "str_nat n =
    (if n < 10 then [''0123456789'' ! n]
     else str_nat (n div 10) @ [''0123456789'' ! (n mod 10)])"

text \<open>The table of name fragments, in the order of the dictionary literal.\<close>

definition role_patterns :: "(string \<times> string \<times> real \<times> string) list" where
  "role_patterns =
    [(''manager'', ''manager'', 8 / 10, ''manages resources or lifecycle''),
     (''service'', ''service'', 8 / 10, ''provides business logic''),
     (''generator'', ''generator'', 8 / 10, ''object creation or construction''),
     (''builder'', ''generator'', 8 / 10, ''object creation or construction''),
     (''analyzer'', ''analyzer'', 8 / 10, ''data analysis or transformation''),
     (''parser'', ''analyzer'', 8 / 10, ''data analysis or transformation''),
     (''handler'', ''processor'', 7 / 10, ''event handling or data processing''),
     (''processor'', ''processor'', 7 / 10, ''event handling or data processing''),
     (''adapter'', ''adapter'', 8 / 10, ''interface adaptation or wrapping''),
     (''wrapper'', ''adapter'', 8 / 10, ''interface adaptation or wrapping''),
     (''model'', ''model'', 7 / 10, ''data structure or entity''),
     (''entity'', ''model'', 7 / 10, ''data structure or entity''),
     (''dto'', ''model'', 7 / 10, ''data structure or entity''),
     (''util'', ''utility'', 7 / 10, ''helper functions''),
     (''helper'', ''utility'', 7 / 10, ''helper functions''),
     (''config'', ''configuration'', 8 / 10, ''configuration management''),
     (''settings'', ''configuration'', 8 / 10, ''configuration management'')]"

definition generate_purpose_description ::
  "string \<Rightarrow> string \<Rightarrow> string \<Rightarrow> nat \<Rightarrow> nat \<Rightarrow> string" where
  "generate_purpose_description nm rl comp_type dep_count dependent_cnt =
    (let role_descriptions =
       [(''manager'', nm @ '' manages lifecycle and resources''),
        (''service'', nm @ '' provides business logic and operations''),
        (''generator'', nm @ '' creates or constructs objects/data''),
        (''analyzer'', nm @ '' analyzes or transforms data''),
        (''processor'', nm @ '' processes data or handles events''),
        (''adapter'', nm @ '' adapts or wraps external interfaces''),
        (''model'', nm @ '' represents data structure or entity''),
        (''utility'', nm @ '' provides helper functions''),
        (''configuration'', nm @ '' manages configuration settings''),
        (''controller'', nm @ '' orchestrates operations''),
        (''unknown'', nm @ '' ('' @ comp_type @ '')'')]
     in get_default (map_of role_descriptions rl) (nm @ '' ('' @ comp_type @ '')''))"

text \<open>
  The loop over the table stops at the first fragment found in the lowered name
  (\<open>break\<close>), which is \<^const>\<open>find\<close>. The state \<open>(role, confidence, reasoning)\<close> then goes
  through the two \<open>if\<close>/\<open>elif\<close> chains on the counts.
\<close>

definition infer_component_purpose :: "analyzer \<Rightarrow> string \<Rightarrow> purpose_result" where
  \<open>infer_component_purpose self component_id =
    (case (if component_map self = [] then None
           else map_of (component_map self) component_id) of
       None \<Rightarrow> PurposeError (''Component '' @ component_id @ '' not found'')
     | Some comp_info \<Rightarrow>
        (let nm = name comp_info;
             comp_type = component_type comp_info;
             dep_count = dependency_count comp_info;
             dependent_cnt = dependent_count comp_info;
             name_lower = lower nm;
             (rl, conf, rsn) =
               (case find (\<lambda>(pattern, r, c, desc). contains pattern name_lower) role_patterns of
                  None \<Rightarrow> (''unknown'', 5 / 10, [])
                | Some (pattern, r, c, desc) \<Rightarrow>
                    (r, c, [''Name contains "'' @ pattern @ ''" - likely '' @ desc]));
             (rl, conf, rsn) =
               (if dep_count = 0
                then ((if rl = ''unknown'' then ''model'' else rl),
                      (if rl = ''unknown'' then 6 / 10 else conf),
                      rsn @ [''No dependencies - likely a data model, constant, or utility''])
                else if dep_count > 10
                then ((if rl = ''unknown'' then ''controller'' else rl),
                      (if rl = ''unknown'' then 6 / 10 else conf),
                      rsn @ [''Many dependencies ('' @ str_nat dep_count
                              @ '') - likely an orchestrator or controller''])
                else (rl, conf, rsn));
             rsn =
               (if dependent_cnt = 0
                then rsn @ [''No dependents - possibly an entry point or unused component'']
                else if dependent_cnt > 10
                then rsn @ [''Many dependents ('' @ str_nat dependent_cnt
                             @ '') - likely a core/shared component'']
                else rsn);
             purpose_text = generate_purpose_description nm rl comp_type dep_count dependent_cnt
         in Purpose \<lparr>primary_purpose = purpose_text, role = rl, confidence = conf,
                      reasoning = rsn,
                      metrics_p = \<lparr>dependencies_x = dep_count, dependents_x = dependent_cnt,
                                   type_x = comp_type\<rparr>\<rparr>))\<close>

subsection \<open>generate_analysis_report\<close>

record report_summary =
  path_s :: string
  component_count_s :: nat
  is_leaf_s :: bool
  level_s :: nat
  has_children_s :: bool

record component_report =
  info_r :: component
  dependencies_r :: dependency_analysis
  purpose_r :: purpose_result

text \<open>
  The three fields read with \<open>module_analysis.get(key, default)\<close> take the default when
  the module analysis is an error record; the default of \<open>complexity\<close> is the empty
  dictionary, here \<open>None\<close>.
\<close>

record analysis_report =
  module_r :: string
  summary_r :: report_summary
  dependencies_m :: "external_dep list"
  dependents_m :: "external_dependent list"
  complexity_r :: "complexity option"
  components_r :: "(string \<times> component_report) list"

datatype report_result = ReportError string | Report analysis_report

definition generate_analysis_report :: "analyzer \<Rightarrow> string \<Rightarrow> report_result" where
  "generate_analysis_report self module_path =
    (case map_of (modules (parsed_tree self)) module_path of
       None \<Rightarrow> ReportError (''Module '' @ module_path @ '' not found'')
     | Some module_info \<Rightarrow>
        (let module_analysis = analyze_module_dependencies self module_path;
             comps = foldl (\<lambda>acc comp_id.
                       (case (if component_map self = [] then None
                              else map_of (component_map self) comp_id) of
                          None \<Rightarrow> acc
                        | Some comp_info \<Rightarrow>
                            AList.update comp_id
                              \<lparr>info_r = comp_info,
                               dependencies_r = analyze_dependencies self comp_id,
                               purpose_r = infer_component_purpose self comp_id\<rparr> acc))
                     [] (components module_info)
         in Report
              \<lparr>module_r = module_path,
               summary_r = \<lparr>path_s = module_path,
                            component_count_s = length (components module_info),
                            is_leaf_s = is_leaf module_info,
                            level_s = level module_info,
                            has_children_s = (length (children module_info) > 0)\<rparr>,
               dependencies_m = (case module_analysis of
                                   ModuleError e \<Rightarrow> []
                                 | ModuleAnalysis a \<Rightarrow> external_dependencies_m a),
               dependents_m = (case module_analysis of
                                   ModuleError e \<Rightarrow> []
                                 | ModuleAnalysis a \<Rightarrow> external_dependents_m a),
               complexity_r = (case module_analysis of
                                   ModuleError e \<Rightarrow> None
                                 | ModuleAnalysis a \<Rightarrow> Some (complexity_m a)),
               components_r = comps\<rparr>))"

subsection \<open>get_repository_summary\<close>

record repository_summary =
  total_modules :: nat
  leaf_modules_n :: nat
  parent_modules_n :: nat
  root_modules_n :: nat
  total_components :: nat
  max_depth :: nat
  processing_order_levels :: nat

datatype summary_result = SummaryError string | Summary repository_summary

text \<open>
  The guard returns the error record when the component map is empty (the parsed tree,
  a dictionary with five keys, is never false). The values of the dictionary literal are
  evaluated in order, so \<open>max\<close> raises before \<open>get_processing_order\<close> is called.
\<close>

definition get_repository_summary :: "analyzer \<Rightarrow> py_error + summary_result" where
  "get_repository_summary self =
    (if component_map self = [] then Inr (SummaryError ''Data not parsed'')
     else
       (case py_max (map (\<lambda>(p, m). level m) (modules (parsed_tree self))) of
          Inl e \<Rightarrow> Inl e
        | Inr depth \<Rightarrow>
           (case get_processing_order self of
              Inl e \<Rightarrow> Inl e
            | Inr order \<Rightarrow>
                Inr (Summary
                  \<lparr>total_modules = length (modules (parsed_tree self)),
                   leaf_modules_n = length (leaf_modules (parsed_tree self)),
                   parent_modules_n = length (parent_modules (parsed_tree self)),
                   root_modules_n = length (root_modules (parsed_tree self)),
                   total_components = length (component_map self),
                   max_depth = depth,
                   processing_order_levels = length order\<rparr>))))"

subsection \<open>Example inputs\<close>

definition no_fields :: comp_data where
  "no_fields = \<lparr>id_in = None, name_in = None, component_type_in = None,
     file_path_in = None, relative_path_in = None, depends_on_in = None\<rparr>"

text \<open>A module \<open>a\<close> with a child \<open>a/b\<close>; the component of \<open>a\<close> depends on that of \<open>a/b\<close>.\<close>

definition example_tree :: module_tree where
  "example_tree = [(''a'', ModuleData [''a.X''] [(''a/b'', ModuleData [''a.b.Y''] [])])]"

definition example_graph :: dependency_graph where
  "example_graph =
    [(''a.X'', no_fields\<lparr>depends_on_in := Some [''a.b.Y'']\<rparr>),
     (''a.b.Y'', no_fields\<lparr>depends_on_in := Some []\<rparr>)]"

definition example_analyzer :: analyzer where
  "example_analyzer = init_analyzer example_tree example_graph"

subsection \<open>The traversal as a list of stores\<close>

text \<open>
  Two views of \<open>traverse\<close> used in the proofs: \<open>visit\<close> is the part of the loop body
  before the recursive call, and \<open>flatten\<close> lists, in pre-order, the records that the
  traversal stores under \<open>result["modules"]\<close>; \<open>store_all\<close> performs a list of stores.
\<close>

definition visit ::
  "string \<Rightarrow> string list \<Rightarrow> module_tree \<Rightarrow> string option \<Rightarrow> nat \<Rightarrow> parse_result \<Rightarrow> parse_result" where
  "visit module_path comps chs parent_path lvl result =
    (let leaf = (length chs = 0);
         result = result\<lparr>modules := AList.update module_path
            \<lparr>path = module_path, components = comps, children = chs,
             parent = parent_path, is_leaf = leaf, level = lvl\<rparr> (modules result)\<rparr>;
         result = (if leaf then result\<lparr>leaf_modules := leaf_modules result @ [module_path]\<rparr>
                   else result\<lparr>parent_modules := parent_modules result @ [module_path]\<rparr>);
         result = (if parent_path = None
                   then result\<lparr>root_modules := root_modules result @ [module_path]\<rparr>
                   else result)
     in foldl (\<lambda>r component_id. r\<lparr>component_to_module :=
                     AList.update component_id module_path (component_to_module r)\<rparr>) result comps)"

function flatten :: "module_tree \<Rightarrow> string option \<Rightarrow> nat \<Rightarrow> (string \<times> parsed_module) list" where
  "flatten [] parent_path lvl = []"
| "flatten ((module_path, ModuleData comps chs) # rest) parent_path lvl =
     (module_path, \<lparr>path = module_path, components = comps, children = chs,
             parent = parent_path, is_leaf = (chs = []), level = lvl\<rparr>)
       # flatten chs (Some module_path) (lvl + 1) @ flatten rest parent_path lvl"
  by pat_completeness auto
termination
  by (relation "measure (\<lambda>(t, _, _). size_list (size_prod (\<lambda>_. 0) size) t)") auto

definition store_all :: "('k \<times> 'v) list \<Rightarrow> ('k \<times> 'v) list \<Rightarrow> ('k \<times> 'v) list" where
  "store_all d kvs = foldl (\<lambda>d (k, v). AList.update k v d) d kvs"


subsection \<open>Further example inputs\<close>

text \<open>A component named \<open>UserManager\<close> without dependencies, and three components depending on it.\<close>

definition manager_graph :: dependency_graph where
  "manager_graph =
    [(''app.UserManager'', no_fields),
     (''app.Login'', no_fields\<lparr>depends_on_in := Some [''app.UserManager'']\<rparr>),
     (''app.Signup'', no_fields\<lparr>depends_on_in := Some [''app.UserManager'']\<rparr>),
     (''app.Admin'', no_fields\<lparr>depends_on_in := Some [''app.UserManager'']\<rparr>)]"

definition manager_analyzer :: analyzer where
  "manager_analyzer = init_analyzer [] manager_graph"

text \<open>The reasoning list of a result (empty for the error record, which has none).\<close>

definition reasoning_of :: "purpose_result \<Rightarrow> string list" where
  "reasoning_of res = (case res of PurposeError e \<Rightarrow> [] | Purpose p \<Rightarrow> reasoning p)"

text \<open>
  The two notes on the number of dependents are the only notes with the word
  \<open>dependents\<close>.
\<close>

definition dependents_note :: "string \<Rightarrow> bool" where
  "dependents_note s = contains ''dependents'' s"

subsection \<open>Module paths of a tree\<close>

text \<open>The module paths of a tree, in pre-order.\<close>

function tree_paths :: "module_tree \<Rightarrow> string list" where
  "tree_paths [] = []"
| "tree_paths ((module_path, ModuleData comps chs) # rest) =
     module_path # tree_paths chs @ tree_paths rest"
  by pat_completeness auto
termination
  by (relation "measure (size_list (size_prod (\<lambda>_. 0) size))") auto

text \<open>A tree in which a path at one level is used again below it.\<close>

definition nested_same_path :: module_tree where
  "nested_same_path = [(''a'', ModuleData [] [(''a'', ModuleData [] [])])]"

subsection \<open>Descendants in the module tree\<close>

text \<open>
  The descendants of the module \<open>p\<close> in a tree: every path in the subtree below a node
  whose path is \<open>p\<close>.
\<close>

function descendants_in :: "module_tree \<Rightarrow> string \<Rightarrow> string list" where
  "descendants_in [] p = []"
| "descendants_in ((module_path, ModuleData comps chs) # rest) p =
     (if module_path = p then tree_paths chs else [])
       @ descendants_in chs p @ descendants_in rest p"
  by pat_completeness auto
termination
  by (relation "measure (\<lambda>(t, _). size_list (size_prod (\<lambda>_. 0) size) t)") auto

text \<open>A tree in which the path of a root is used again two levels below it.\<close>

definition reused_below :: module_tree where
  "reused_below = [(''a'', ModuleData [] [(''b'', ModuleData [] [(''a'', ModuleData [] [])])])]"

subsection \<open>Edges into a component\<close>

text \<open>
  The sources of the edges into \<open>b\<close>, one per edge, in the order in which the first
  loop of \<open>_build_reverse_dependencies\<close> meets them.
\<close>

definition sources :: "component_map \<Rightarrow> string \<Rightarrow> string list" where
  "sources cm b = concat (map (\<lambda>(a, ca). replicate (count_list (depends_on ca) b) a) cm)"

text \<open>The component map before the reverse pass: fresh records under distinct keys.\<close>

definition fresh_record :: "component \<Rightarrow> bool" where
  "fresh_record c \<longleftrightarrow> depended_by c = [] \<and> dependent_count c = 0 \<and>
     dependency_count c = length (depends_on c)"

subsection \<open>Edges of a module\<close>

text \<open>
  What one component of a module contributes to the module analysis: its internal
  edges, and its relationships to targets in another module \<open>m'\<close>.
\<close>

definition internal_edges_of :: "component_map \<Rightarrow> string \<Rightarrow> string \<Rightarrow> edge list" where
  "internal_edges_of cm mp c =
    (case map_of cm c of
       None \<Rightarrow> []
     | Some ci \<Rightarrow>
         map (\<lambda>d. \<lparr>from_e = c, to_e = d, type_e = ''depends_on''\<rparr>)
           (filter (\<lambda>d. map_option module_c (map_of cm d) = Some (Some mp)) (depends_on ci)))"

definition external_rels_of ::
  "component_map \<Rightarrow> string \<Rightarrow> string \<Rightarrow> string \<Rightarrow> relationship list" where
  "external_rels_of cm mp m' c =
    (case map_of cm c of
       None \<Rightarrow> []
     | Some ci \<Rightarrow>
         map (\<lambda>d. \<lparr>from_component = c, to_component = d\<rparr>)
           (filter (\<lambda>d. m' \<noteq> mp \<and> m' \<noteq> [] \<and>
                        map_option module_c (map_of cm d) = Some (Some m')) (depends_on ci)))"

text \<open>
  The targets of the external edges of one component: those present in the component
  map whose module is a non-empty path other than the queried one.
\<close>

definition external_target :: "component_map \<Rightarrow> string \<Rightarrow> string \<Rightarrow> bool" where
  "external_target cm mp d =
    (case map_of cm d of
       None \<Rightarrow> False
     | Some dc \<Rightarrow>
         (case module_c dc of None \<Rightarrow> False | Some m' \<Rightarrow> m' \<noteq> mp \<and> m' \<noteq> []))"

definition external_targets_of :: "component_map \<Rightarrow> string \<Rightarrow> string \<Rightarrow> string list" where
  "external_targets_of cm mp c =
    (case map_of cm c of
       None \<Rightarrow> []
     | Some ci \<Rightarrow> filter (external_target cm mp) (depends_on ci))"

text \<open>
  A module \<open>m\<close> with two components that depend on each other, one of which also
  depends on a component of the module \<open>n\<close>.
\<close>

definition mixed_tree :: module_tree where
  "mixed_tree =
    [(''m'', ModuleData [''m.X'', ''m.Y''] []), (''n'', ModuleData [''n.Z''] [])]"

definition mixed_graph :: dependency_graph where
  "mixed_graph =
    [(''m.X'', no_fields\<lparr>depends_on_in := Some [''m.Y'', ''n.Z'']\<rparr>),
     (''m.Y'', no_fields\<lparr>depends_on_in := Some [''m.X'']\<rparr>),
     (''n.Z'', no_fields)]"

definition mixed_analyzer :: analyzer where
  "mixed_analyzer = init_analyzer mixed_tree mixed_graph"

text \<open>A component of the module \<open>m\<close> depending on a component that no module lists.\<close>

definition unassigned_tree :: module_tree where
  "unassigned_tree = [(''m'', ModuleData [''m.X''] [])]"

definition unassigned_graph :: dependency_graph where
  "unassigned_graph =
    [(''m.X'', no_fields\<lparr>depends_on_in := Some [''lib.Y'']\<rparr>), (''lib.Y'', no_fields)]"

definition unassigned_analyzer :: analyzer where
  "unassigned_analyzer = init_analyzer unassigned_tree unassigned_graph"

text \<open>The two edge lists of a module analysis (empty for the error record).\<close>

definition internal_of :: "module_result \<Rightarrow> edge list" where
  "internal_of res =
    (case res of ModuleError e \<Rightarrow> [] | ModuleAnalysis a \<Rightarrow> internal_dependencies_m a)"

definition external_of :: "module_result \<Rightarrow> external_dep list" where
  "external_of res =
    (case res of ModuleError e \<Rightarrow> [] | ModuleAnalysis a \<Rightarrow> external_dependencies_m a)"

section \<open>Properties\<close>

subsection \<open>Component-level classification\<close>

text \<open>One step of the classification loop, then the whole loop, as a filter of the input.\<close>

lemma classify_step_internal:
  "fst (classify_step cm qm acc x) =
     fst acc @ (if \<exists>dc. map_of cm x = Some dc \<and> module_c dc = qm
                then [\<lparr>id_d = x, name_d = name (the (map_of cm x)),
                       type_d = component_type (the (map_of cm x)), module_d = None\<rparr>]
                else [])"
  by (cases acc) (auto simp: classify_step_def Let_def split: option.splits)

lemma classify_step_external:
  "fst (snd (classify_step cm qm acc x)) =
     fst (snd acc) @ (if \<exists>dc. map_of cm x = Some dc \<and> module_c dc \<noteq> qm
                then [\<lparr>id_d = x, name_d = name (the (map_of cm x)),
                       type_d = component_type (the (map_of cm x)),
                       module_d = Some (module_c (the (map_of cm x)))\<rparr>]
                else [])"
  by (cases acc) (auto simp: classify_step_def Let_def split: option.splits)

lemma classify_internal:
  "fst (foldl (classify_step cm qm) acc xs) =
     fst acc @ map (\<lambda>d. \<lparr>id_d = d, name_d = name (the (map_of cm d)),
                        type_d = component_type (the (map_of cm d)), module_d = None\<rparr>)
       (filter (\<lambda>d. \<exists>dc. map_of cm d = Some dc \<and> module_c dc = qm) xs)"
proof (induction xs arbitrary: acc)
  case Nil
  show ?case by simp
next
  case (Cons x xs)
  show ?case by (simp add: Cons.IH classify_step_internal)
qed

lemma classify_external:
  "fst (snd (foldl (classify_step cm qm) acc xs)) =
     fst (snd acc) @ map (\<lambda>d. \<lparr>id_d = d, name_d = name (the (map_of cm d)),
                        type_d = component_type (the (map_of cm d)),
                        module_d = Some (module_c (the (map_of cm d)))\<rparr>)
       (filter (\<lambda>d. \<exists>dc. map_of cm d = Some dc \<and> module_c dc \<noteq> qm) xs)"
proof (induction xs arbitrary: acc)
  case Nil
  show ?case by simp
next
  case (Cons x xs)
  show ?case by (simp add: Cons.IH classify_step_external)
qed

lemma analyze_dependencies_found:
  assumes "map_of (component_map self) cid = Some ci"
  shows "internal_dependencies (analyze_dependencies self cid) =
           fst (foldl (classify_step (component_map self) (module_c ci)) ([], [], []) (depends_on ci))"
    and "external_dependencies (analyze_dependencies self cid) =
           fst (snd (foldl (classify_step (component_map self) (module_c ci)) ([], [], []) (depends_on ci)))"
    and "internal_dependents (analyze_dependencies self cid) =
           fst (foldl (classify_step (component_map self) (module_c ci)) ([], [], []) (depended_by ci))"
    and "external_dependents (analyze_dependencies self cid) =
           fst (snd (foldl (classify_step (component_map self) (module_c ci)) ([], [], []) (depended_by ci)))"
    and "error_a (analyze_dependencies self cid) = None"
proof -
  from assms have ne: "component_map self \<noteq> []" by auto
  show "internal_dependencies (analyze_dependencies self cid) =
           fst (foldl (classify_step (component_map self) (module_c ci)) ([], [], []) (depends_on ci))"
    using assms ne by (simp add: analyze_dependencies_def Let_def split: prod.splits)
  show "external_dependencies (analyze_dependencies self cid) =
           fst (snd (foldl (classify_step (component_map self) (module_c ci)) ([], [], []) (depends_on ci)))"
    using assms ne by (simp add: analyze_dependencies_def Let_def split: prod.splits)
  show "internal_dependents (analyze_dependencies self cid) =
           fst (foldl (classify_step (component_map self) (module_c ci)) ([], [], []) (depended_by ci))"
    using assms ne by (simp add: analyze_dependencies_def Let_def split: prod.splits)
  show "external_dependents (analyze_dependencies self cid) =
           fst (snd (foldl (classify_step (component_map self) (module_c ci)) ([], [], []) (depended_by ci)))"
    using assms ne by (simp add: analyze_dependencies_def Let_def split: prod.splits)
  show "error_a (analyze_dependencies self cid) = None"
    using assms ne by (simp add: analyze_dependencies_def Let_def split: prod.splits)
qed

text \<open>
  Claim C1. For a component present in the component map, every \<open>depends_on\<close> target
  that is itself present in the map is listed under the internal dependencies exactly
  when its module equals the module of the queried component (two \<open>None\<close> modules are
  equal as options, hence internal), and under the external dependencies exactly when
  the modules differ; the same holds for every \<open>depended_by\<close> source and the two lists
  of dependents.
\<close>

theorem analyze_dependencies_classification:
  assumes "map_of (component_map self) cid = Some ci"
      and "map_of (component_map self) d = Some dc"
  shows "(d \<in> set (depends_on ci) \<longrightarrow>
            (d \<in> id_d ` set (internal_dependencies (analyze_dependencies self cid))
               \<longleftrightarrow> module_c dc = module_c ci) \<and>
            (d \<in> id_d ` set (external_dependencies (analyze_dependencies self cid))
               \<longleftrightarrow> module_c dc \<noteq> module_c ci)) \<and>
         (d \<in> set (depended_by ci) \<longrightarrow>
            (d \<in> id_d ` set (internal_dependents (analyze_dependencies self cid))
               \<longleftrightarrow> module_c dc = module_c ci) \<and>
            (d \<in> id_d ` set (external_dependents (analyze_dependencies self cid))
               \<longleftrightarrow> module_c dc \<noteq> module_c ci))"
  using assms(2)
  by (auto simp: analyze_dependencies_found[OF assms(1)] classify_internal classify_external image_iff)

theorem analyze_dependencies_classification_witness:
  "''a.b.Y'' \<in> set (depends_on (the (map_of (component_map example_analyzer) ''a.X''))) \<and>
   ''a.b.Y'' \<in> id_d ` set (external_dependencies (analyze_dependencies example_analyzer ''a.X'')) \<and>
   ''a.b.Y'' \<notin> id_d ` set (internal_dependencies (analyze_dependencies example_analyzer ''a.X''))"
proof -
  have h1: "map_of (component_map example_analyzer) ''a.X'' =
     Some \<lparr>id_c = ''a.X'', name = ''X'', component_type = ''unknown'',
           file_path = [], relative_path = [], depends_on = [''a.b.Y''],
           depended_by = [], module_c = Some ''a'', dependency_count = 1,
           dependent_count = 0\<rparr>" by code_simp
  have h2: "map_of (component_map example_analyzer) ''a.b.Y'' =
     Some \<lparr>id_c = ''a.b.Y'', name = ''Y'', component_type = ''unknown'',
           file_path = [], relative_path = [], depends_on = [],
           depended_by = [''a.X''], module_c = Some ''a/b'',
           dependency_count = 0, dependent_count = 1\<rparr>" by code_simp
  show ?thesis
    using analyze_dependencies_classification[OF h1 h2] h1 by simp
qed

subsection \<open>Lookups of absent ids\<close>

text \<open>
  Claim C8. For a component id absent from the component map and a module path absent
  from the parsed modules, each of the four lookup methods returns its error record:
  \<open>analyze_dependencies\<close> the record with the error message and six empty lists, the
  other three the record holding the error message only. The model has no exception
  value on these paths because the source has no raising operation on them: every
  dictionary access is behind the membership test that selects the error record.
\<close>

theorem absent_lookups_return_error:
  assumes "map_of (component_map self) cid = None"
      and "map_of (modules (parsed_tree self)) mp = None"
  shows "analyze_dependencies self cid =
           \<lparr>error_a = Some (''Component '' @ cid @ '' not found''),
            internal_dependencies = [], external_dependencies = [],
            internal_dependents = [], external_dependents = [],
            dependency_modules = [], dependent_modules = []\<rparr> \<and>
         infer_component_purpose self cid = PurposeError (''Component '' @ cid @ '' not found'') \<and>
         analyze_module_dependencies self mp = ModuleError (''Module '' @ mp @ '' not found'') \<and>
         generate_analysis_report self mp = ReportError (''Module '' @ mp @ '' not found'')"
  using assms
  by (simp add: analyze_dependencies_def infer_component_purpose_def
        analyze_module_dependencies_def generate_analysis_report_def)

theorem absent_lookups_return_error_witness:
  "analyze_dependencies example_analyzer ''a.Z'' =
           \<lparr>error_a = Some ''Component a.Z not found'',
            internal_dependencies = [], external_dependencies = [],
            internal_dependents = [], external_dependents = [],
            dependency_modules = [], dependent_modules = []\<rparr> \<and>
   infer_component_purpose example_analyzer ''a.Z'' = PurposeError ''Component a.Z not found'' \<and>
   analyze_module_dependencies example_analyzer ''c'' = ModuleError ''Module c not found'' \<and>
   generate_analysis_report example_analyzer ''c'' = ReportError ''Module c not found''"
proof -
  have h1: "map_of (component_map example_analyzer) ''a.Z'' = None" by code_simp
  have h2: "map_of (modules (parsed_tree example_analyzer)) ''c'' = None" by code_simp
  show ?thesis
    using absent_lookups_return_error[OF h1 h2] by simp
qed


subsection \<open>The parsed modules are the stores of the pre-order listing\<close>

lemma traverse_Cons:
  "traverse ((mp, ModuleData comps chs) # rest) par lvl r =
     traverse rest par lvl (traverse chs (Some mp) (lvl + 1) (visit mp comps chs par lvl r))"
  by (cases "chs = []") (simp_all add: visit_def Let_def)

lemma foldl_ctm_fields:
  "modules (foldl (\<lambda>r c. r\<lparr>component_to_module := f c r\<rparr>) r cs) = modules r"
  "root_modules (foldl (\<lambda>r c. r\<lparr>component_to_module := f c r\<rparr>) r cs) = root_modules r"
  "leaf_modules (foldl (\<lambda>r c. r\<lparr>component_to_module := f c r\<rparr>) r cs) = leaf_modules r"
  "parent_modules (foldl (\<lambda>r c. r\<lparr>component_to_module := f c r\<rparr>) r cs) = parent_modules r"
  by (induction cs arbitrary: r) simp_all

lemma modules_visit:
  "modules (visit mp comps chs par lvl r) =
     AList.update mp \<lparr>path = mp, components = comps, children = chs,
             parent = par, is_leaf = (chs = []), level = lvl\<rparr> (modules r)"
  by (simp add: visit_def Let_def foldl_ctm_fields)

lemma root_modules_visit:
  "root_modules (visit mp comps chs par lvl r) =
     (if par = None then root_modules r @ [mp] else root_modules r)"
  by (simp add: visit_def Let_def foldl_ctm_fields)

lemma store_all_simps:
  "store_all d [] = d"
  "store_all d ((k, v) # kvs) = store_all (AList.update k v d) kvs"
  "store_all d (xs @ ys) = store_all (store_all d xs) ys"
  by (simp_all add: store_all_def)

lemma modules_traverse:
  "modules (traverse t par lvl r) = store_all (modules r) (flatten t par lvl)"
proof (induction t par lvl arbitrary: r rule: flatten.induct)
  case (1 par lvl)
  show ?case by (simp add: store_all_simps)
next
  case (2 mp comps chs rest par lvl)
  show ?case
    by (simp only: traverse_Cons "2.IH" flatten.simps store_all_simps modules_visit)
qed

lemma root_modules_traverse:
  "root_modules (traverse t par lvl r) =
     (if par = None then root_modules r @ map fst t else root_modules r)"
proof (induction t par lvl arbitrary: r rule: flatten.induct)
  case (1 par lvl)
  show ?case by simp
next
  case (2 mp comps chs rest par lvl)
  have "root_modules (traverse chs (Some mp) (lvl + 1) (visit mp comps chs par lvl r)) =
          root_modules (visit mp comps chs par lvl r)"
    by (simp only: "2.IH"(1)) simp
  then show ?case
    by (simp only: traverse_Cons "2.IH"(2)) (simp add: root_modules_visit)
qed

lemma update_not_Nil: "AList.update k v d \<noteq> []"
  by (cases d) simp_all

lemma store_all_not_Nil: "d \<noteq> [] \<Longrightarrow> store_all d kvs \<noteq> []"
proof (induction kvs arbitrary: d)
  case Nil
  then show ?case by (simp add: store_all_simps(1))
next
  case (Cons kv kvs)
  obtain k v where kv: "kv = (k, v)" by (cases kv)
  show ?case
    unfolding kv store_all_simps(2) by (rule Cons.IH) (rule update_not_Nil)
qed

lemma store_all_Nil_iff: "store_all d kvs = [] \<longleftrightarrow> d = [] \<and> kvs = []"
proof (cases kvs)
  case Nil
  then show ?thesis by (simp add: store_all_simps(1))
next
  case (Cons kv kvs')
  obtain k v where kv: "kv = (k, v)" by (cases kv)
  have "store_all d kvs \<noteq> []"
    unfolding Cons kv store_all_simps(2) by (rule store_all_not_Nil) (rule update_not_Nil)
  with Cons show ?thesis by simp
qed

lemma flatten_Nil_iff: "flatten t par lvl = [] \<longleftrightarrow> t = []"
proof (cases t)
  case Nil
  then show ?thesis by simp
next
  case (Cons a t')
  obtain mp md where a: "a = (mp, md)" by (cases a)
  obtain comps chs where md: "md = ModuleData comps chs" by (cases md)
  show ?thesis unfolding Cons a md by simp
qed

lemma modules_parse_Nil_iff: "modules (parse_module_tree t) = [] \<longleftrightarrow> t = []"
  by (simp add: parse_module_tree_def modules_traverse store_all_Nil_iff flatten_Nil_iff
        empty_result_def del: traverse.simps)


subsection \<open>Empty inputs\<close>

lemma length_map_entry: "length (AList.map_entry k f m) = length m"
  by (induction m) auto

lemma map_fst_map_entry: "map fst (AList.map_entry k f m) = map fst m"
  by (induction m) auto

lemma build_map_fold_not_Nil:
  "m \<noteq> [] \<or> g \<noteq> [] \<Longrightarrow> foldl (\<lambda>m (k, v). AList.update k (f k v) m) m g \<noteq> []"
proof (induction g arbitrary: m)
  case Nil
  then show ?case by simp
next
  case (Cons kv g)
  obtain k v where kv: "kv = (k, v)" by (cases kv)
  show ?case unfolding kv by (simp del: AList.update.simps) (rule Cons.IH, simp add: update_not_Nil)
qed

lemma length_attach_module: "length (attach_module pt m k) = length m"
  by (simp add: attach_module_def length_map_entry split: option.splits)

lemma length_foldl_attach: "length (foldl (attach_module pt) m ks) = length m"
  by (induction ks arbitrary: m) (simp_all add: length_attach_module)

lemma build_component_map_Nil_iff: "build_component_map g pt = [] \<longleftrightarrow> g = []"
proof (cases g)
  case Nil
  then show ?thesis by (simp add: build_component_map_def)
next
  case (Cons a g')
  have "foldl (\<lambda>m (comp_id, cd). AList.update comp_id (new_component comp_id cd) m) [] g \<noteq> []"
    using Cons by (intro build_map_fold_not_Nil) simp
  then have "length (build_component_map g pt) \<noteq> 0"
    unfolding build_component_map_def Let_def length_foldl_attach by simp
  with Cons show ?thesis by auto
qed

lemma length_set_dependents: "length (set_dependents m item) = length m"
  by (cases item) (simp add: set_dependents_def length_map_entry)

lemma length_foldl_set_dependents: "length (foldl set_dependents m rv) = length m"
  by (induction rv arbitrary: m) (simp_all add: length_set_dependents)

lemma length_build_reverse:
  "length (snd (build_reverse_dependencies cm)) = length cm"
  by (simp add: build_reverse_dependencies_def Let_def length_foldl_set_dependents)

lemma component_map_init:
  "component_map (init_analyzer t g) =
     snd (build_reverse_dependencies (build_component_map g (parse_module_tree t)))"
  by (simp add: init_analyzer_def Let_def split: prod.splits)

lemma component_map_init_Nil_iff: "component_map (init_analyzer t g) = [] \<longleftrightarrow> g = []"
proof -
  have "length (component_map (init_analyzer t g)) =
        length (build_component_map g (parse_module_tree t))"
    by (simp only: component_map_init length_build_reverse)
  then show ?thesis using build_component_map_Nil_iff[of g "parse_module_tree t"]
    by (metis length_0_conv)
qed

lemma parsed_tree_init: "parsed_tree (init_analyzer t g) = parse_module_tree t"
  by (simp add: init_analyzer_def Let_def split: prod.splits)

lemma py_max_error_iff: "py_max xs = Inl ValueError \<longleftrightarrow> xs = []"
  by (simp add: py_max_def split: list.splits)

lemma get_processing_order_error_iff:
  "get_processing_order self = Inl ValueError \<longleftrightarrow> modules (parsed_tree self) = []"
  by (cases "modules (parsed_tree self)") (simp_all add: get_processing_order_def py_max_def)

lemma get_repository_summary_error_iff:
  "get_repository_summary self = Inl ValueError \<longleftrightarrow>
     modules (parsed_tree self) = [] \<and> component_map self \<noteq> []"
proof (cases "modules (parsed_tree self)")
  case Nil
  then show ?thesis by (simp add: get_repository_summary_def py_max_def)
next
  case (Cons a ms)
  then obtain order where "get_processing_order self = Inr order"
    using get_processing_order_error_iff[of self] by (cases "get_processing_order self") (auto, metis py_error.exhaust)
  with Cons show ?thesis by (simp add: get_repository_summary_def py_max_def)
qed

text \<open>
  Claim C10, as amended. For an analyzer built from a module tree \<open>t\<close> and a dependency
  graph \<open>g\<close>: \<open>get_processing_order\<close> raises \<open>ValueError\<close> exactly when the tree has no
  module; \<open>get_repository_summary\<close> raises \<open>ValueError\<close> exactly when the tree has no
  module and the graph has at least one component; with an empty graph it returns the
  error record \<open>Data not parsed\<close> whatever the tree is. With at least one module neither
  operation raises.
\<close>

theorem empty_module_set_raises:
  "(get_processing_order (init_analyzer t g) = Inl ValueError \<longleftrightarrow> t = []) \<and>
   (get_repository_summary (init_analyzer t g) = Inl ValueError \<longleftrightarrow> t = [] \<and> g \<noteq> []) \<and>
   (g = [] \<longrightarrow> get_repository_summary (init_analyzer t g) = Inr (SummaryError ''Data not parsed''))"
  by (simp add: get_processing_order_error_iff get_repository_summary_error_iff
        parsed_tree_init modules_parse_Nil_iff component_map_init_Nil_iff)
     (simp add: get_repository_summary_def component_map_init_Nil_iff)

theorem empty_module_set_raises_witness:
  "get_processing_order (init_analyzer [] example_graph) = Inl ValueError \<and>
   get_repository_summary (init_analyzer [] example_graph) = Inl ValueError \<and>
   get_processing_order (init_analyzer example_tree example_graph) \<noteq> Inl ValueError \<and>
   get_repository_summary (init_analyzer example_tree example_graph) \<noteq> Inl ValueError \<and>
   get_repository_summary (init_analyzer [] []) = Inr (SummaryError ''Data not parsed'')"
  using empty_module_set_raises[of "[]" example_graph]
        empty_module_set_raises[of example_tree example_graph]
        empty_module_set_raises[of "[]" "[]"]
  by (simp add: example_graph_def example_tree_def)

text \<open>
  The claim as stated fails: with no module and no component the summary does not
  raise, it returns the error record.
\<close>

theorem empty_module_set_summary_counterexample:
  "modules (parsed_tree (init_analyzer [] [])) = [] \<and>
   get_repository_summary (init_analyzer [] []) = Inr (SummaryError ''Data not parsed'')"
  by code_simp


subsection \<open>Purpose of a manager\<close>

lemma lower_UserManager: "lower ''UserManager'' = ''usermanager''"
  by code_simp

lemma find_manager:
  "find (\<lambda>(pattern, r, c, desc). contains pattern ''usermanager'') role_patterns =
     Some (''manager'', ''manager'', 8 / 10, ''manages resources or lifecycle'')"
  by (simp add: role_patterns_def)

text \<open>
  Claim C9, as amended. A component named \<open>UserManager\<close> gets the role \<open>manager\<close> with
  confidence 0.8 whatever its dependency and dependent counts are (the name fragment
  is matched first). With 0 dependencies and 3 dependents its reasoning list is the
  name note followed by the no-dependencies note; it holds no note on the dependents,
  which is added only for 0 or more than 10 dependents.
\<close>

theorem user_manager_purpose:
  assumes "map_of (component_map self) cid = Some ci" and "name ci = ''UserManager''"
  shows "\<exists>p. infer_component_purpose self cid = Purpose p \<and>
           role p = ''manager'' \<and> confidence p = 8 / 10 \<and>
           (dependency_count ci = 0 \<and> dependent_count ci = 3 \<longrightarrow>
              reasoning p =
                [''Name contains '' @ [CHR 0x22] @ ''manager'' @ [CHR 0x22]
                   @ '' - likely manages resources or lifecycle'',
                 ''No dependencies - likely a data model, constant, or utility''])"
proof -
  from assms(1) have ne: "component_map self \<noteq> []" by auto
  with assms(1) have sel:
    "(if component_map self = [] then None else map_of (component_map self) cid) = Some ci"
    by simp
  show ?thesis
    unfolding infer_component_purpose_def sel option.case Let_def assms(2)
      lower_UserManager find_manager
    by simp
qed

theorem user_manager_purpose_witness:
  "\<exists>p. infer_component_purpose manager_analyzer ''app.UserManager'' = Purpose p \<and>
           role p = ''manager'' \<and> confidence p = 8 / 10 \<and>
              reasoning p =
                [''Name contains '' @ [CHR 0x22] @ ''manager'' @ [CHR 0x22]
                   @ '' - likely manages resources or lifecycle'',
                 ''No dependencies - likely a data model, constant, or utility'']"
proof -
  have h: "map_of (component_map manager_analyzer) ''app.UserManager'' =
    Some \<lparr>id_c = ''app.UserManager'', name = ''UserManager'',
           component_type = ''unknown'', file_path = [], relative_path = [],
           depends_on = [], depended_by = [''app.Login'', ''app.Signup'', ''app.Admin''],
           module_c = None, dependency_count = 0, dependent_count = 3\<rparr>" by code_simp
  show ?thesis using user_manager_purpose[OF h] by simp
qed

text \<open>
  The claim as stated fails: with three dependents no note of the reasoning list
  mentions the dependents.
\<close>

theorem user_manager_no_dependents_note_counterexample:
  "map_option name (map_of (component_map manager_analyzer) ''app.UserManager'') = Some ''UserManager'' \<and>
   map_option dependency_count (map_of (component_map manager_analyzer) ''app.UserManager'') = Some 0 \<and>
   map_option dependent_count (map_of (component_map manager_analyzer) ''app.UserManager'') = Some 3 \<and>
   \<not> list_ex dependents_note
        (reasoning_of (infer_component_purpose manager_analyzer ''app.UserManager''))"
  by code_simp

subsection \<open>Invariants of the parsed modules\<close>

lemma map_fst_flatten: "map fst (flatten t par lvl) = tree_paths t"
  by (induction t par lvl rule: flatten.induct) simp_all

lemma update_fresh: "k \<notin> fst ` set d \<Longrightarrow> AList.update k v d = d @ [(k, v)]"
  by (induction d) auto

lemma store_all_fresh:
  "distinct (map fst kvs) \<Longrightarrow> fst ` set kvs \<inter> fst ` set d = {} \<Longrightarrow> store_all d kvs = d @ kvs"
proof (induction kvs arbitrary: d)
  case Nil
  show ?case by (simp add: store_all_simps(1))
next
  case (Cons kv kvs)
  obtain k v where kv: "kv = (k, v)" by (cases kv)
  from Cons.prems have fresh: "k \<notin> fst ` set d" and d: "distinct (map fst kvs)"
    and k: "k \<notin> fst ` set kvs" and disj: "fst ` set kvs \<inter> fst ` set d = {}"
    by (auto simp: kv)
  have "fst ` set kvs \<inter> fst ` set (d @ [(k, v)]) = {}" using k disj by auto
  from Cons.IH[OF d this] show ?case
    by (simp add: kv store_all_simps(2) update_fresh[OF fresh])
qed

lemma modules_parse_distinct:
  assumes "distinct (tree_paths t)"
  shows "modules (parse_module_tree t) = flatten t None 0"
  using store_all_fresh[of "flatten t None 0" "[]"] assms
  by (simp add: parse_module_tree_def modules_traverse empty_result_def map_fst_flatten
        del: traverse.simps)

lemma root_modules_parse: "root_modules (parse_module_tree t) = map fst t"
  by (simp add: parse_module_tree_def root_modules_traverse empty_result_def del: traverse.simps)

lemma set_update_subset: "set (AList.update k v d) \<subseteq> insert (k, v) (set d)"
  by (induction d) auto

lemma set_store_all: "set (store_all d kvs) \<subseteq> set d \<union> set kvs"
proof (induction kvs arbitrary: d)
  case Nil
  show ?case by (simp add: store_all_simps(1))
next
  case (Cons kv kvs)
  obtain k v where kv: "kv = (k, v)" by (cases kv)
  show ?case
    using Cons.IH[of "AList.update k v d"] set_update_subset[of k v d]
    by (auto simp: kv store_all_simps(2))
qed

lemma in_flatten_Cons:
  "(p, m) \<in> set (flatten ((mp, ModuleData comps chs) # rest) par lvl) \<longleftrightarrow>
     (p = mp \<and> m = \<lparr>path = mp, components = comps, children = chs,
                      parent = par, is_leaf = (chs = []), level = lvl\<rparr>) \<or>
     (p, m) \<in> set (flatten chs (Some mp) (lvl + 1)) \<or>
     (p, m) \<in> set (flatten rest par lvl)"
  by simp

lemma flatten_entry: "(p, m) \<in> set (flatten t par lvl) \<Longrightarrow> path m = p \<and> is_leaf m = (children m = [])"
proof (induction t par lvl rule: flatten.induct)
  case (1 par lvl)
  then show ?case by simp
next
  case (2 mp comps chs rest par lvl)
  from "2.prems" show ?case
    unfolding in_flatten_Cons
  proof (elim disjE)
    assume "p = mp \<and> m = \<lparr>path = mp, components = comps, children = chs,
                      parent = par, is_leaf = (chs = []), level = lvl\<rparr>"
    then show ?thesis by simp
  next
    assume "(p, m) \<in> set (flatten chs (Some mp) (lvl + 1))"
    then show ?thesis by (rule "2.IH"(1))
  next
    assume "(p, m) \<in> set (flatten rest par lvl)"
    then show ?thesis by (rule "2.IH"(2))
  qed
qed

lemma modules_parse: "modules (parse_module_tree t) = store_all [] (flatten t None 0)"
  unfolding parse_module_tree_def modules_traverse by (simp add: empty_result_def)

lemma parsed_entry:
  assumes "map_of (modules (parse_module_tree t)) p = Some m"
  shows "path m = p \<and> is_leaf m = (children m = [])"
proof -
  from assms have "(p, m) \<in> set (store_all [] (flatten t None 0))"
    unfolding modules_parse by (rule map_of_SomeD)
  with set_store_all[of "[]" "flatten t None 0"] have "(p, m) \<in> set (flatten t None 0)"
    by auto
  then show ?thesis by (rule flatten_entry)
qed

lemma flatten_level_ge: "(p, m) \<in> set (flatten t par lvl) \<Longrightarrow> lvl \<le> level m"
proof (induction t par lvl rule: flatten.induct)
  case (1 par lvl)
  then show ?case by simp
next
  case (2 mp comps chs rest par lvl)
  from "2.prems" show ?case
    unfolding in_flatten_Cons
  proof (elim disjE)
    assume "p = mp \<and> m = \<lparr>path = mp, components = comps, children = chs,
                      parent = par, is_leaf = (chs = []), level = lvl\<rparr>"
    then show ?thesis by simp
  next
    assume "(p, m) \<in> set (flatten chs (Some mp) (lvl + 1))"
    from "2.IH"(1)[OF this] show ?thesis by simp
  next
    assume "(p, m) \<in> set (flatten rest par lvl)"
    then show ?thesis by (rule "2.IH"(2))
  qed
qed

lemma flatten_top:
  "p \<in> fst ` set t \<Longrightarrow> \<exists>m. (p, m) \<in> set (flatten t par lvl) \<and> parent m = par \<and> level m = lvl"
proof (induction t par lvl rule: flatten.induct)
  case (1 par lvl)
  then show ?case by simp
next
  case (2 mp comps chs rest par lvl)
  show ?case
  proof (cases "p = mp")
    case True
    let ?m = "\<lparr>path = mp, components = comps, children = chs,
                      parent = par, is_leaf = (chs = []), level = lvl\<rparr>"
    have "(p, ?m) \<in> set (flatten ((mp, ModuleData comps chs) # rest) par lvl)"
      unfolding in_flatten_Cons using True by simp
    moreover have "parent ?m = par \<and> level ?m = lvl" by simp
    ultimately show ?thesis by blast
  next
    case False
    with "2.prems" have "p \<in> fst ` set rest" by auto
    from "2.IH"(2)[OF this] obtain m where
      "(p, m) \<in> set (flatten rest par lvl)" "parent m = par \<and> level m = lvl" by blast
    then have "(p, m) \<in> set (flatten ((mp, ModuleData comps chs) # rest) par lvl)"
      unfolding in_flatten_Cons by simp
    with \<open>parent m = par \<and> level m = lvl\<close> show ?thesis by blast
  qed
qed

lemma flatten_parent:
  "(p, m) \<in> set (flatten t par lvl) \<Longrightarrow>
     (p \<in> fst ` set t \<and> parent m = par \<and> level m = lvl) \<or>
     (\<exists>q mq. (q, mq) \<in> set (flatten t par lvl) \<and> parent m = Some q \<and> level m = level mq + 1)"
proof (induction t par lvl rule: flatten.induct)
  case (1 par lvl)
  then show ?case by simp
next
  case (2 mp comps chs rest par lvl)
  let ?t = "(mp, ModuleData comps chs) # rest"
  let ?m = "\<lparr>path = mp, components = comps, children = chs,
                      parent = par, is_leaf = (chs = []), level = lvl\<rparr>"
  have top: "(mp, ?m) \<in> set (flatten ?t par lvl)" unfolding in_flatten_Cons by simp
  have sub: "\<And>q mq. (q, mq) \<in> set (flatten chs (Some mp) (lvl + 1)) \<Longrightarrow>
                (q, mq) \<in> set (flatten ?t par lvl)" unfolding in_flatten_Cons by simp
  have rst: "\<And>q mq. (q, mq) \<in> set (flatten rest par lvl) \<Longrightarrow>
                (q, mq) \<in> set (flatten ?t par lvl)" unfolding in_flatten_Cons by simp
  from "2.prems" have "(p = mp \<and> m = ?m) \<or>
     (p, m) \<in> set (flatten chs (Some mp) (lvl + 1)) \<or>
     (p, m) \<in> set (flatten rest par lvl)"
    unfolding in_flatten_Cons .
  then show ?case
  proof (elim disjE)
    assume "p = mp \<and> m = ?m"
    then have "p \<in> fst ` set ?t \<and> parent m = par \<and> level m = lvl" by simp
    then show ?thesis by (rule disjI1)
  next
    assume a: "(p, m) \<in> set (flatten chs (Some mp) (lvl + 1))"
    from "2.IH"(1)[OF a] show ?thesis
    proof
      assume "p \<in> fst ` set chs \<and> parent m = Some mp \<and> level m = lvl + 1"
      then have "parent m = Some mp \<and> level m = level ?m + 1" by simp
      with top show ?thesis by blast
    next
      assume "\<exists>q mq. (q, mq) \<in> set (flatten chs (Some mp) (lvl + 1)) \<and>
                parent m = Some q \<and> level m = level mq + 1"
      then obtain q mq where "(q, mq) \<in> set (flatten chs (Some mp) (lvl + 1))"
        "parent m = Some q \<and> level m = level mq + 1" by blast
      with sub show ?thesis by blast
    qed
  next
    assume a: "(p, m) \<in> set (flatten rest par lvl)"
    from "2.IH"(2)[OF a] show ?thesis
    proof
      assume "p \<in> fst ` set rest \<and> parent m = par \<and> level m = lvl"
      then have "p \<in> fst ` set ?t \<and> parent m = par \<and> level m = lvl" by simp
      then show ?thesis by (rule disjI1)
    next
      assume "\<exists>q mq. (q, mq) \<in> set (flatten rest par lvl) \<and>
                parent m = Some q \<and> level m = level mq + 1"
      then obtain q mq where "(q, mq) \<in> set (flatten rest par lvl)"
        "parent m = Some q \<and> level m = level mq + 1" by blast
      with rst show ?thesis by blast
    qed
  qed
qed

lemma map_of_distinct_iff:
  "distinct (map fst xs) \<Longrightarrow> map_of xs k = Some v \<longleftrightarrow> (k, v) \<in> set xs"
  by (auto intro: map_of_is_SomeI dest: map_of_SomeD)

text \<open>
  Claim C7, as amended. For every module produced by \<open>parse_module_tree\<close>, \<open>is_leaf\<close>
  holds exactly when the children mapping is empty. When moreover the module paths of
  the tree are pairwise distinct: the parent is \<open>None\<close> exactly when the module is listed
  in \<open>root_modules\<close>, root modules have level 0, and a module with parent \<open>q\<close> has the
  level of \<open>q\<close> plus one, \<open>q\<close> being itself a parsed module.
\<close>

theorem parsed_module_invariants:
  assumes "map_of (modules (parse_module_tree t)) p = Some m"
  shows "(is_leaf m \<longleftrightarrow> children m = []) \<and>
         (distinct (tree_paths t) \<longrightarrow>
            (parent m = None \<longleftrightarrow> p \<in> set (root_modules (parse_module_tree t))) \<and>
            (p \<in> set (root_modules (parse_module_tree t)) \<longrightarrow> level m = 0) \<and>
            (\<forall>q. parent m = Some q \<longrightarrow>
               (\<exists>mq. map_of (modules (parse_module_tree t)) q = Some mq \<and>
                     level m = level mq + 1)))"
proof (intro conjI impI)
  show "is_leaf m \<longleftrightarrow> children m = []" using parsed_entry[OF assms] by simp
next
  assume d: "distinct (tree_paths t)"
  let ?F = "flatten t None 0"
  have F: "modules (parse_module_tree t) = ?F" by (rule modules_parse_distinct[OF d])
  have dF: "distinct (map fst ?F)" using d by (simp add: map_fst_flatten)
  have pm: "(p, m) \<in> set ?F" using assms by (simp add: F map_of_distinct_iff[OF dF])
  have root: "p \<in> fst ` set t \<Longrightarrow> parent m = None \<and> level m = 0"
  proof -
    assume "p \<in> fst ` set t"
    from flatten_top[OF this, of None 0] obtain m' where
      m': "(p, m') \<in> set ?F" "parent m' = None" "level m' = 0" by blast
    from m'(1) pm dF have "m' = m" by (meson eq_key_imp_eq_value)
    with m' show ?thesis by simp
  qed
  show "parent m = None \<longleftrightarrow> p \<in> set (root_modules (parse_module_tree t))"
    using flatten_parent[OF pm] root by (auto simp: root_modules_parse)
  show "level m = 0" if "p \<in> set (root_modules (parse_module_tree t))"
    using that root by (simp add: root_modules_parse)
  show "\<forall>q. parent m = Some q \<longrightarrow>
          (\<exists>mq. map_of (modules (parse_module_tree t)) q = Some mq \<and> level m = level mq + 1)"
    using flatten_parent[OF pm] by (auto simp: F map_of_distinct_iff[OF dF])
qed

text \<open>
  Without distinct paths the claim fails: when a child reuses the path of its parent,
  the later store replaces the record of the parent, so the root module \<open>a\<close> ends with
  level 1 and with itself as parent.
\<close>

theorem parsed_module_invariants_counterexample:
  "''a'' \<in> set (root_modules (parse_module_tree nested_same_path)) \<and>
   map_option parent (map_of (modules (parse_module_tree nested_same_path)) ''a'') = Some (Some ''a'') \<and>
   map_option level (map_of (modules (parse_module_tree nested_same_path)) ''a'') = Some 1"
  by code_simp

theorem parsed_module_invariants_witness:
  "distinct (tree_paths example_tree) \<and>
   map_of (modules (parse_module_tree example_tree)) ''a/b'' =
     Some \<lparr>path = ''a/b'', components = [''a.b.Y''], children = [],
            parent = Some ''a'', is_leaf = True, level = 1\<rparr> \<and>
   ''a/b'' \<notin> set (root_modules (parse_module_tree example_tree)) \<and>
   (\<exists>mq. map_of (modules (parse_module_tree example_tree)) ''a'' = Some mq \<and> level mq = 0)"
proof -
  have d: "distinct (tree_paths example_tree)" by code_simp
  have h: "map_of (modules (parse_module_tree example_tree)) ''a/b'' =
     Some \<lparr>path = ''a/b'', components = [''a.b.Y''], children = [],
            parent = Some ''a'', is_leaf = True, level = 1\<rparr>" by code_simp
  show ?thesis using parsed_module_invariants[OF h] d h by simp
qed

subsection \<open>Processing order\<close>

lemma foldl_order:
  "foldl (\<lambda>order lvl. (let lm = f lvl in if lm \<noteq> [] then order @ [lm] else order)) acc ls =
     acc @ filter (\<lambda>b. b \<noteq> []) (map f ls)"
  by (induction ls arbitrary: acc) (simp_all add: Let_def)

lemma foldl_max: "foldl max (x::nat) ys = Max (insert x (set ys))"
proof (induction ys arbitrary: x)
  case Nil
  show ?case by simp
next
  case (Cons y ys)
  have "Max (insert (max x y) (set ys)) = Max (insert x (insert y (set ys)))"
    by (cases "set ys = {}") (simp_all add: max.assoc max.commute max.left_commute)
  then show ?case by (simp add: Cons.IH)
qed

lemma get_processing_order_returns:
  assumes "modules (parsed_tree self) \<noteq> []"
  shows "get_processing_order self =
           Inr (filter (\<lambda>b. b \<noteq> [])
                  (map (level_modules (parsed_tree self))
                     (rev [0..<Suc (Max ((\<lambda>(p, m). level m) ` set (modules (parsed_tree self))))])))"
proof -
  obtain a ms where ms: "modules (parsed_tree self) = a # ms"
    using assms by (cases "modules (parsed_tree self)") auto
  have "py_max (map (\<lambda>(p, m). level m) (modules (parsed_tree self))) =
          Inr (Max ((\<lambda>(p, m). level m) ` set (modules (parsed_tree self))))"
    unfolding ms py_max_def by (simp add: foldl_max)
  then show ?thesis
    unfolding get_processing_order_def by (simp add: foldl_order)
qed

lemma level_le_Max:
  "(p, m) \<in> set ms \<Longrightarrow> level m \<le> Max ((\<lambda>(p, m). level m) ` set ms)"
  by (rule Max_ge) (auto intro: rev_image_eqI)

lemma in_level_modules:
  "p \<in> set (level_modules pt l) \<longleftrightarrow> (\<exists>m. (p, m) \<in> set (modules pt) \<and> level m = l)"
proof
  assume "p \<in> set (level_modules pt l)"
  then show "\<exists>m. (p, m) \<in> set (modules pt) \<and> level m = l"
    by (auto simp: level_modules_def)
next
  assume "\<exists>m. (p, m) \<in> set (modules pt) \<and> level m = l"
  then obtain m where m: "(p, m) \<in> set (modules pt)" "level m = l" by blast
  then have "(p, m) \<in> set (filter (\<lambda>(p, info). level info = l) (modules pt))" by simp
  then have "fst (p, m) \<in> fst ` set (filter (\<lambda>(p, info). level info = l) (modules pt))"
    by (rule imageI)
  then show "p \<in> set (level_modules pt l)" by (simp add: level_modules_def)
qed

lemma distinct_level_modules:
  "distinct (map fst (modules pt)) \<Longrightarrow> distinct (level_modules pt l)"
  unfolding level_modules_def by (rule distinct_map_filter)

lemma distinct_concat_levels:
  assumes "distinct (map fst (modules pt))" and "distinct ls"
  shows "distinct (concat (filter (\<lambda>b. b \<noteq> []) (map (level_modules pt) ls)))"
  using assms(2)
proof (induction ls)
  case Nil
  show ?case by simp
next
  case (Cons l ls)
  have disj: "set (level_modules pt l) \<inter> set (concat (filter (\<lambda>b. b \<noteq> []) (map (level_modules pt) ls))) = {}"
  proof (rule ccontr)
    assume "\<not> ?thesis"
    then obtain p l' where p: "p \<in> set (level_modules pt l)" "l' \<in> set ls"
      "p \<in> set (level_modules pt l')" by auto
    then obtain m m' where "(p, m) \<in> set (modules pt)" "level m = l"
      "(p, m') \<in> set (modules pt)" "level m' = l'" unfolding in_level_modules by blast
    with assms(1) have "l = l'" by (metis eq_key_imp_eq_value)
    with p(2) Cons.prems show False by simp
  qed
  from Cons have "distinct (concat (filter (\<lambda>b. b \<noteq> []) (map (level_modules pt) ls)))" by simp
  with disj distinct_level_modules[OF assms(1), of l] show ?case by simp
qed

lemma set_concat_levels:
  "set (concat (filter (\<lambda>b. b \<noteq> []) (map (level_modules pt) ls))) =
     {p. \<exists>m. (p, m) \<in> set (modules pt) \<and> level m \<in> set ls}"
proof -
  have "set (concat (filter (\<lambda>b. b \<noteq> []) (map (level_modules pt) ls))) =
          (\<Union>l \<in> set ls. set (level_modules pt l))" by auto
  also have "\<dots> = {p. \<exists>m. (p, m) \<in> set (modules pt) \<and> level m \<in> set ls}"
  proof (rule set_eqI)
    fix p
    show "p \<in> (\<Union>l \<in> set ls. set (level_modules pt l)) \<longleftrightarrow>
          p \<in> {p. \<exists>m. (p, m) \<in> set (modules pt) \<and> level m \<in> set ls}"
      unfolding UN_iff in_level_modules mem_Collect_eq by blast
  qed
  finally show ?thesis .
qed

lemma distinct_update_keys: "distinct (map fst d) \<Longrightarrow> distinct (map fst (AList.update k v d))"
  by (rule distinct_update)

lemma distinct_store_all: "distinct (map fst d) \<Longrightarrow> distinct (map fst (store_all d kvs))"
proof (induction kvs arbitrary: d)
  case Nil
  then show ?case by (simp add: store_all_simps(1))
next
  case (Cons kv kvs)
  obtain k v where kv: "kv = (k, v)" by (cases kv)
  show ?case unfolding kv store_all_simps(2)
    by (rule Cons.IH) (rule distinct_update_keys[OF Cons.prems])
qed

lemma distinct_modules_parse: "distinct (map fst (modules (parse_module_tree t)))"
  unfolding modules_parse by (rule distinct_store_all) simp

lemma in_tree_paths_flatten:
  "q \<in> set (tree_paths t) \<Longrightarrow> \<exists>mq. (q, mq) \<in> set (flatten t par lvl)"
proof -
  assume "q \<in> set (tree_paths t)"
  then have "q \<in> fst ` set (flatten t par lvl)"
    unfolding map_fst_flatten[of t par lvl, symmetric] by simp
  then show ?thesis by auto
qed

lemma descendant_deeper:
  "q \<in> set (descendants_in t p) \<Longrightarrow>
     \<exists>mp mq. (p, mp) \<in> set (flatten t par lvl) \<and> (q, mq) \<in> set (flatten t par lvl) \<and>
             level mp < level mq"
proof (induction t par lvl rule: flatten.induct)
  case (1 par lvl)
  then show ?case by simp
next
  case (2 mp' comps chs rest par lvl)
  let ?t = "(mp', ModuleData comps chs) # rest"
  let ?m = "\<lparr>path = mp', components = comps, children = chs,
                      parent = par, is_leaf = (chs = []), level = lvl\<rparr>"
  have top: "(mp', ?m) \<in> set (flatten ?t par lvl)" unfolding in_flatten_Cons by simp
  have sub: "\<And>q mq. (q, mq) \<in> set (flatten chs (Some mp') (lvl + 1)) \<Longrightarrow>
                (q, mq) \<in> set (flatten ?t par lvl)" unfolding in_flatten_Cons by simp
  have rst: "\<And>q mq. (q, mq) \<in> set (flatten rest par lvl) \<Longrightarrow>
                (q, mq) \<in> set (flatten ?t par lvl)" unfolding in_flatten_Cons by simp
  from "2.prems" have "(mp' = p \<and> q \<in> set (tree_paths chs)) \<or>
      q \<in> set (descendants_in chs p) \<or> q \<in> set (descendants_in rest p)"
    by (auto split: if_splits)
  then show ?case
  proof (elim disjE)
    assume a: "mp' = p \<and> q \<in> set (tree_paths chs)"
    then obtain mq where mq: "(q, mq) \<in> set (flatten chs (Some mp') (lvl + 1))"
      using in_tree_paths_flatten by blast
    from flatten_level_ge[OF mq] have "level ?m < level mq" by simp
    with top sub[OF mq] a show ?thesis by blast
  next
    assume "q \<in> set (descendants_in chs p)"
    from "2.IH"(1)[OF this] obtain mp mq where
      "(p, mp) \<in> set (flatten chs (Some mp') (lvl + 1))"
      "(q, mq) \<in> set (flatten chs (Some mp') (lvl + 1))" "level mp < level mq" by blast
    with sub show ?thesis by blast
  next
    assume "q \<in> set (descendants_in rest p)"
    from "2.IH"(2)[OF this] obtain mp mq where
      "(p, mp) \<in> set (flatten rest par lvl)"
      "(q, mq) \<in> set (flatten rest par lvl)" "level mp < level mq" by blast
    with rst show ?thesis by blast
  qed
qed

lemma levels_populated:
  "(p, m) \<in> set (flatten t par lvl) \<Longrightarrow> lvl \<le> l \<Longrightarrow> l \<le> level m \<Longrightarrow>
     \<exists>q mq. (q, mq) \<in> set (flatten t par lvl) \<and> level mq = l"
proof (induction t par lvl rule: flatten.induct)
  case (1 par lvl)
  then show ?case by simp
next
  case (2 mp' comps chs rest par lvl)
  let ?t = "(mp', ModuleData comps chs) # rest"
  let ?m = "\<lparr>path = mp', components = comps, children = chs,
                      parent = par, is_leaf = (chs = []), level = lvl\<rparr>"
  have top: "(mp', ?m) \<in> set (flatten ?t par lvl)" unfolding in_flatten_Cons by simp
  have sub: "\<And>q mq. (q, mq) \<in> set (flatten chs (Some mp') (lvl + 1)) \<Longrightarrow>
                (q, mq) \<in> set (flatten ?t par lvl)" unfolding in_flatten_Cons by simp
  have rst: "\<And>q mq. (q, mq) \<in> set (flatten rest par lvl) \<Longrightarrow>
                (q, mq) \<in> set (flatten ?t par lvl)" unfolding in_flatten_Cons by simp
  show ?case
  proof (cases "l = lvl")
    case True
    then have "level ?m = l" by simp
    with top show ?thesis by blast
  next
    case False
    with "2.prems"(2) have l: "lvl + 1 \<le> l" by simp
    from "2.prems"(1) have "(p = mp' \<and> m = ?m) \<or>
       (p, m) \<in> set (flatten chs (Some mp') (lvl + 1)) \<or>
       (p, m) \<in> set (flatten rest par lvl)"
      unfolding in_flatten_Cons .
    then show ?thesis
    proof (elim disjE)
      assume "p = mp' \<and> m = ?m"
      with "2.prems"(3) False "2.prems"(2) show ?thesis by simp
    next
      assume a: "(p, m) \<in> set (flatten chs (Some mp') (lvl + 1))"
      from "2.IH"(1)[OF a l "2.prems"(3)] sub show ?thesis by blast
    next
      assume a: "(p, m) \<in> set (flatten rest par lvl)"
      from "2.IH"(2)[OF a "2.prems"(2) "2.prems"(3)] rst show ?thesis by blast
    qed
  qed
qed

lemma rev_upt_nth: "i \<le> n \<Longrightarrow> rev [0..<Suc n] ! i = n - i"
  by (simp add: rev_nth del: upt_Suc)

text \<open>With distinct paths every level up to the deepest one is populated, and nothing is skipped.\<close>

lemma processing_order_distinct_paths:
  assumes d: "distinct (tree_paths t)" and ne: "t \<noteq> []"
  defines "pt \<equiv> parse_module_tree t"
  defines "mx \<equiv> Max ((\<lambda>(p, m). level m) ` set (modules pt))"
  shows "get_processing_order (init_analyzer t g) =
           Inr (map (level_modules pt) (rev [0..<Suc mx]))"
proof -
  have F: "modules pt = flatten t None 0" unfolding pt_def by (rule modules_parse_distinct[OF d])
  have mne: "modules pt \<noteq> []" unfolding pt_def by (simp add: modules_parse_Nil_iff ne)
  have "(\<lambda>(p, m). level m) ` set (modules pt) \<noteq> {}" "finite ((\<lambda>(p, m). level m) ` set (modules pt))"
    using mne by simp_all
  from Max_in[OF this(2) this(1)] obtain p m where pm: "(p, m) \<in> set (modules pt)" "level m = mx"
    unfolding mx_def by auto
  have all: "level_modules pt l \<noteq> []" if "l \<le> mx" for l
  proof -
    from levels_populated[of p m t None 0 l] pm that obtain q mq
      where "(q, mq) \<in> set (modules pt)" "level mq = l" unfolding F by auto
    then have "q \<in> set (level_modules pt l)" unfolding in_level_modules by blast
    then show ?thesis by auto
  qed
  have "filter (\<lambda>b. b \<noteq> []) (map (level_modules pt) (rev [0..<Suc mx])) =
          map (level_modules pt) (rev [0..<Suc mx])"
    by (rule filter_True) (auto simp: all simp del: upt_Suc)
  with get_processing_order_returns[of "init_analyzer t g"] mne show ?thesis
    unfolding parsed_tree_init pt_def[symmetric] mx_def[symmetric] by simp
qed

text \<open>
  Claim C4, as amended. For a tree with at least one module, \<open>get_processing_order\<close>
  returns the batches of the levels from the deepest level down to level 0, without
  the levels that hold no module. When moreover the module paths of the tree are
  pairwise distinct, every descendant of a module appears in a strictly earlier batch
  than the module.
\<close>

theorem processing_order_bottom_up:
  assumes "t \<noteq> []"
  shows "\<exists>order. get_processing_order (init_analyzer t g) = Inr order \<and>
     order = filter (\<lambda>b. b \<noteq> [])
               (map (level_modules (parse_module_tree t))
                  (rev [0..<Suc (Max ((\<lambda>(p, m). level m) ` set (modules (parse_module_tree t))))])) \<and>
     (distinct (tree_paths t) \<longrightarrow>
        (\<forall>p q. q \<in> set (descendants_in t p) \<longrightarrow>
           (\<exists>i j. i < j \<and> j < length order \<and> q \<in> set (order ! i) \<and> p \<in> set (order ! j))))"
proof -
  define pt where "pt = parse_module_tree t"
  define mx where "mx = Max ((\<lambda>(p, m). level m) ` set (modules pt))"
  define order where "order = filter (\<lambda>b. b \<noteq> []) (map (level_modules pt) (rev [0..<Suc mx]))"
  have mne: "modules pt \<noteq> []" unfolding pt_def by (simp add: modules_parse_Nil_iff assms)
  have ret: "get_processing_order (init_analyzer t g) = Inr order"
    using get_processing_order_returns[of "init_analyzer t g"] mne
    unfolding parsed_tree_init pt_def[symmetric] mx_def[symmetric] order_def by simp
  have desc: "\<exists>i j. i < j \<and> j < length order \<and> q \<in> set (order ! i) \<and> p \<in> set (order ! j)"
    if d: "distinct (tree_paths t)" and q: "q \<in> set (descendants_in t p)" for p q
  proof -
    have F: "modules pt = flatten t None 0" unfolding pt_def by (rule modules_parse_distinct[OF d])
    have "Inr order = Inr (map (level_modules pt) (rev [0..<Suc mx]))"
      using processing_order_distinct_paths[OF d assms, of g] ret
      unfolding pt_def[symmetric] mx_def[symmetric] by simp
    then have o: "order = map (level_modules pt) (rev [0..<Suc mx])" by simp
    from descendant_deeper[OF q, of None 0] obtain mp mq where
      mp: "(p, mp) \<in> set (modules pt)" and mq: "(q, mq) \<in> set (modules pt)"
      and lt: "level mp < level mq" unfolding F by blast
    have le: "level mq \<le> mx" unfolding mx_def by (rule level_le_Max[OF mq])
    let ?i = "mx - level mq" and ?j = "mx - level mp"
    have len: "length order = Suc mx" unfolding o by simp
    have "?i < ?j" using lt le by simp
    moreover have "?j < length order" unfolding len by simp
    moreover have "order ! ?i = level_modules pt (level mq)"
      unfolding o using le by (simp add: rev_upt_nth del: upt_Suc)
    then have "q \<in> set (order ! ?i)" using mq by (simp add: in_level_modules) blast
    moreover have "order ! ?j = level_modules pt (level mp)"
      unfolding o using le lt by (simp add: rev_upt_nth del: upt_Suc)
    then have "p \<in> set (order ! ?j)" using mp by (simp add: in_level_modules) blast
    ultimately show ?thesis by blast
  qed
  show ?thesis
    using ret desc unfolding order_def mx_def pt_def by blast
qed

theorem processing_order_bottom_up_witness:
  "\<exists>order. get_processing_order (init_analyzer example_tree example_graph) = Inr order \<and>
      (\<exists>i j. i < j \<and> j < length order \<and> ''a/b'' \<in> set (order ! i) \<and> ''a'' \<in> set (order ! j))"
proof -
  have ne: "example_tree \<noteq> []" by (simp add: example_tree_def)
  have d: "distinct (tree_paths example_tree)" by code_simp
  have q: "''a/b'' \<in> set (descendants_in example_tree ''a'')" by code_simp
  show ?thesis
    using processing_order_bottom_up[OF ne, of example_graph] d q by blast
qed

text \<open>
  Without distinct paths the second part fails: below, the record of the root \<open>a\<close> is
  replaced by that of its grandchild, at level 2, so \<open>a\<close> comes in the first batch and
  its descendant \<open>b\<close> in the second.
\<close>

theorem processing_order_bottom_up_counterexample:
  "get_processing_order (init_analyzer reused_below []) = Inr [[''a''], [''b'']] \<and>
   ''b'' \<in> set (descendants_in reused_below ''a'')"
  by code_simp

text \<open>
  Claim C5, as amended. For a tree with at least one module, the batches returned by
  \<open>get_processing_order\<close> together hold exactly the parsed module paths, each path
  once. The batches run from the deepest level to level 0: when the module paths of the
  tree are pairwise distinct, the level of a module in the batch of index \<open>i\<close> is the
  number of batches minus one minus \<open>i\<close>, not \<open>i\<close>.
\<close>

theorem processing_order_complete:
  assumes "t \<noteq> []"
  shows "\<exists>order. get_processing_order (init_analyzer t g) = Inr order \<and>
     set (concat order) = fst ` set (modules (parse_module_tree t)) \<and>
     distinct (concat order) \<and>
     (distinct (tree_paths t) \<longrightarrow>
        (\<forall>i < length order. \<forall>p \<in> set (order ! i). \<forall>m.
            map_of (modules (parse_module_tree t)) p = Some m \<longrightarrow>
            level m = length order - 1 - i))"
proof -
  define pt where "pt = parse_module_tree t"
  define mx where "mx = Max ((\<lambda>(p, m). level m) ` set (modules pt))"
  define order where "order = filter (\<lambda>b. b \<noteq> []) (map (level_modules pt) (rev [0..<Suc mx]))"
  have mne: "modules pt \<noteq> []" unfolding pt_def by (simp add: modules_parse_Nil_iff assms)
  have dk: "distinct (map fst (modules pt))" unfolding pt_def by (rule distinct_modules_parse)
  have ret: "get_processing_order (init_analyzer t g) = Inr order"
    using get_processing_order_returns[of "init_analyzer t g"] mne
    unfolding parsed_tree_init pt_def[symmetric] mx_def[symmetric] order_def by simp
  have "set (concat order) = {p. \<exists>m. (p, m) \<in> set (modules pt) \<and> level m \<in> set (rev [0..<Suc mx])}"
    unfolding order_def by (rule set_concat_levels)
  also have "\<dots> = fst ` set (modules pt)"
  proof (rule set_eqI)
    fix p
    show "p \<in> {p. \<exists>m. (p, m) \<in> set (modules pt) \<and> level m \<in> set (rev [0..<Suc mx])}
            \<longleftrightarrow> p \<in> fst ` set (modules pt)"
    proof
      assume "p \<in> {p. \<exists>m. (p, m) \<in> set (modules pt) \<and> level m \<in> set (rev [0..<Suc mx])}"
      then obtain m where "(p, m) \<in> set (modules pt)" by blast
      then have "fst (p, m) \<in> fst ` set (modules pt)" by (rule imageI)
      then show "p \<in> fst ` set (modules pt)" by simp
    next
      assume "p \<in> fst ` set (modules pt)"
      then obtain m where m: "(p, m) \<in> set (modules pt)" by auto
      from level_le_Max[OF m] have "level m \<in> set (rev [0..<Suc mx])"
        unfolding mx_def by (simp del: upt_Suc)
      with m show "p \<in> {p. \<exists>m. (p, m) \<in> set (modules pt) \<and> level m \<in> set (rev [0..<Suc mx])}"
        by blast
    qed
  qed
  finally have cover: "set (concat order) = fst ` set (modules pt)" .
  have dist: "distinct (concat order)"
    unfolding order_def by (rule distinct_concat_levels[OF dk]) (simp del: upt_Suc)
  have idx: "level m = length order - 1 - i"
    if d: "distinct (tree_paths t)" and i: "i < length order" and p: "p \<in> set (order ! i)"
      and m: "map_of (modules pt) p = Some m" for i p m
  proof -
    have "Inr order = Inr (map (level_modules pt) (rev [0..<Suc mx]))"
      using processing_order_distinct_paths[OF d assms, of g] ret
      unfolding pt_def[symmetric] mx_def[symmetric] by simp
    then have o: "order = map (level_modules pt) (rev [0..<Suc mx])" by simp
    have len: "length order = Suc mx" unfolding o by simp
    from i have "order ! i = level_modules pt (mx - i)"
      unfolding len unfolding o by (simp add: rev_upt_nth del: upt_Suc)
    with p have "p \<in> set (level_modules pt (mx - i))" by simp
    then obtain m' where m': "(p, m') \<in> set (modules pt)" "level m' = mx - i"
      unfolding in_level_modules by blast
    from m have "(p, m) \<in> set (modules pt)" by (rule map_of_SomeD)
    with m'(1) dk have "m = m'" by (meson eq_key_imp_eq_value)
    with m'(2) len show ?thesis by simp
  qed
  show ?thesis
    using ret cover dist idx unfolding pt_def by blast
qed

theorem processing_order_complete_witness:
  "\<exists>order. get_processing_order (init_analyzer example_tree example_graph) = Inr order \<and>
     set (concat order) = fst ` set (modules (parse_module_tree example_tree)) \<and>
     distinct (concat order) \<and>
     (\<forall>i < length order. \<forall>p \<in> set (order ! i). \<forall>m.
            map_of (modules (parse_module_tree example_tree)) p = Some m \<longrightarrow>
            level m = length order - 1 - i)"
proof -
  have ne: "example_tree \<noteq> []" by (simp add: example_tree_def)
  have d: "distinct (tree_paths example_tree)" by code_simp
  show ?thesis
    using processing_order_complete[OF ne, of example_graph] d by blast
qed

text \<open>
  The claim as stated fails: the module \<open>a/b\<close> of level 1 is in the batch of index 0.
\<close>

theorem processing_order_complete_counterexample:
  "get_processing_order example_analyzer = Inr [[''a/b''], [''a'']] \<and>
   [[''a/b''], [''a'']] ! 0 = [''a/b''] \<and>
   map_option level (map_of (modules (parsed_tree example_analyzer)) ''a/b'') = Some 1"
  by code_simp

subsection \<open>Reverse dependency index\<close>

lemma map_of_append_to:
  "map_of (append_to k v d) = (map_of d)(k \<mapsto> get_default (map_of d k) [] @ [v])"
  by (simp add: append_to_def update_conv')

lemma lookup_append_to:
  "get_default (map_of (append_to k v d) b) [] =
     (if b = k then get_default (map_of d k) [] @ [v] else get_default (map_of d b) [])"
  by (simp add: map_of_append_to get_default_def)

lemma defined_append_to:
  "map_of (append_to k v d) b = None \<longleftrightarrow> b \<noteq> k \<and> map_of d b = None"
  by (simp add: map_of_append_to)

lemma distinct_append_to: "distinct (map fst d) \<Longrightarrow> distinct (map fst (append_to k v d))"
  unfolding append_to_def by (rule distinct_update)

lemma inner_fold:
  "get_default (map_of (foldl (\<lambda>rv dep_id. append_to dep_id a rv) rv ds) b) [] =
     get_default (map_of rv b) [] @ replicate (count_list ds b) a"
  by (induction ds arbitrary: rv) (simp_all add: lookup_append_to replicate_app_Cons_same)

lemma inner_fold_defined:
  "map_of (foldl (\<lambda>rv dep_id. append_to dep_id a rv) rv ds) b = None \<longleftrightarrow>
     b \<notin> set ds \<and> map_of rv b = None"
  by (induction ds arbitrary: rv) (auto simp: defined_append_to)

lemma inner_fold_distinct:
  "distinct (map fst rv) \<Longrightarrow>
     distinct (map fst (foldl (\<lambda>rv dep_id. append_to dep_id a rv) rv ds))"
  by (induction ds arbitrary: rv) (simp_all add: distinct_append_to)

lemma add_edges_pair:
  "add_edges rv (a, ca) = foldl (\<lambda>rv dep_id. append_to dep_id a rv) rv (depends_on ca)"
  by (simp add: add_edges_def)

lemma add_edges_lookup:
  "get_default (map_of (foldl add_edges rv cm) b) [] = get_default (map_of rv b) [] @ sources cm b"
proof (induction cm arbitrary: rv)
  case Nil
  show ?case by (simp add: sources_def)
next
  case (Cons x cm)
  obtain a ca where x: "x = (a, ca)" by (cases x)
  have "sources (x # cm) b = replicate (count_list (depends_on ca) b) a @ sources cm b"
    by (simp add: sources_def x)
  then show ?case
    by (simp add: Cons.IH x add_edges_pair inner_fold)
qed

lemma add_edges_defined:
  "map_of (foldl add_edges rv cm) b = None \<longleftrightarrow> sources cm b = [] \<and> map_of rv b = None"
proof (induction cm arbitrary: rv)
  case Nil
  show ?case by (simp add: sources_def)
next
  case (Cons x cm)
  obtain a ca where x: "x = (a, ca)" by (cases x)
  have s: "sources (x # cm) b = [] \<longleftrightarrow> b \<notin> set (depends_on ca) \<and> sources cm b = []"
    by (simp add: sources_def x count_list_0_iff)
  show ?case
    unfolding s by (simp add: Cons.IH x add_edges_pair inner_fold_defined) blast
qed

lemma add_edges_distinct:
  "distinct (map fst rv) \<Longrightarrow> distinct (map fst (foldl add_edges rv cm))"
proof (induction cm arbitrary: rv)
  case Nil
  then show ?case by simp
next
  case (Cons x cm)
  obtain a ca where x: "x = (a, ca)" by (cases x)
  show ?case
    unfolding x foldl_Cons
    by (rule Cons.IH) (simp add: add_edges_pair inner_fold_distinct[OF Cons.prems])
qed

lemma reverse_map_lookup:
  "map_of (foldl add_edges [] cm) b = (if sources cm b = [] then None else Some (sources cm b))"
proof (cases "sources cm b = []")
  case True
  then show ?thesis by (simp add: add_edges_defined)
next
  case False
  then have "map_of (foldl add_edges [] cm) b \<noteq> None" by (simp add: add_edges_defined)
  then obtain ds where ds: "map_of (foldl add_edges [] cm) b = Some ds" by auto
  with add_edges_lookup[of "[]" cm b] have "ds = sources cm b" by (simp add: get_default_def)
  with ds False show ?thesis by simp
qed

lemma set_dependents_pair:
  "set_dependents cm (k, ds) =
     (if map_of cm k \<noteq> None
      then AList.map_entry k (\<lambda>c. c\<lparr>depended_by := ds, dependent_count := length ds\<rparr>) cm
      else cm)"
  by (simp add: set_dependents_def)

lemma map_of_set_dependents:
  "map_of (set_dependents cm (k, ds)) b =
     (if b = k then map_option (\<lambda>c. c\<lparr>depended_by := ds, dependent_count := length ds\<rparr>) (map_of cm b)
      else map_of cm b)"
  by (cases "map_of cm k") (simp_all add: set_dependents_pair map_of_map_entry)

lemma map_of_foldl_set_dependents:
  "distinct (map fst rv) \<Longrightarrow>
   map_of (foldl set_dependents cm rv) b =
     map_option (\<lambda>c. case map_of rv b of None \<Rightarrow> c
                      | Some ds \<Rightarrow> c\<lparr>depended_by := ds, dependent_count := length ds\<rparr>)
       (map_of cm b)"
proof (induction rv arbitrary: cm)
  case Nil
  show ?case by (simp add: option.map_ident)
next
  case (Cons x rv)
  obtain k ds where x: "x = (k, ds)" by (cases x)
  from Cons.prems have d: "distinct (map fst rv)" and k: "k \<notin> fst ` set rv" by (auto simp: x)
  from k have kn: "map_of rv k = None" by (simp add: map_of_eq_None_iff)
  show ?case
  proof (cases "b = k")
    case True
    show ?thesis
      unfolding x foldl_Cons Cons.IH[OF d] map_of_set_dependents
      using True kn by (cases "map_of cm k") simp_all
  next
    case False
    show ?thesis
      unfolding x foldl_Cons Cons.IH[OF d] map_of_set_dependents
      using False by simp
  qed
qed


lemma fresh_new_component: "fresh_record (new_component k cd)"
  by (simp add: fresh_record_def new_component_def)

lemma first_loop_invariant:
  "distinct (map fst m) \<Longrightarrow> (\<forall>(k, c) \<in> set m. fresh_record c) \<Longrightarrow>
   distinct (map fst (foldl (\<lambda>m (comp_id, cd). AList.update comp_id (new_component comp_id cd) m) m g)) \<and>
   (\<forall>(k, c) \<in> set (foldl (\<lambda>m (comp_id, cd). AList.update comp_id (new_component comp_id cd) m) m g).
      fresh_record c)"
proof (induction g arbitrary: m)
  case Nil
  then show ?case by simp
next
  case (Cons x g)
  obtain k cd where x: "x = (k, cd)" by (cases x)
  have d: "distinct (map fst (AList.update k (new_component k cd) m))"
    by (rule distinct_update[OF Cons.prems(1)])
  have f: "\<forall>(k', c) \<in> set (AList.update k (new_component k cd) m). fresh_record c"
    using set_update_subset[of k "new_component k cd" m] Cons.prems(2) fresh_new_component
    by (auto simp del: AList.update.simps)
  from Cons.IH[OF d f] show ?case by (simp add: x del: AList.update.simps)
qed

lemma set_map_entry:
  "(k', c') \<in> set (AList.map_entry k f m) \<Longrightarrow> (k', c') \<in> set m \<or> (\<exists>c. (k', c) \<in> set m \<and> c' = f c)"
  by (induction m) (auto split: if_splits)

lemma attach_module_invariant:
  assumes "distinct (map fst m)" and "\<forall>(k, c) \<in> set m. fresh_record c"
  shows "distinct (map fst (attach_module pt m k)) \<and>
         (\<forall>(k, c) \<in> set (attach_module pt m k). fresh_record c)"
proof (cases "map_of (component_to_module pt) k")
  case None
  with assms show ?thesis by (simp add: attach_module_def)
next
  case (Some mp)
  have a: "attach_module pt m k = AList.map_entry k (\<lambda>c. c\<lparr>module_c := Some mp\<rparr>) m"
    by (simp add: attach_module_def Some)
  have "fresh_record c'" if "(k', c') \<in> set (AList.map_entry k (\<lambda>c. c\<lparr>module_c := Some mp\<rparr>) m)"
    for k' c'
    using set_map_entry[OF that] assms(2) by (auto simp: fresh_record_def)
  then show ?thesis
    unfolding a using distinct_map_entry[OF assms(1)] by auto
qed

lemma second_loop_invariant:
  "distinct (map fst m) \<Longrightarrow> (\<forall>(k, c) \<in> set m. fresh_record c) \<Longrightarrow>
   distinct (map fst (foldl (attach_module pt) m ks)) \<and>
   (\<forall>(k, c) \<in> set (foldl (attach_module pt) m ks). fresh_record c)"
proof (induction ks arbitrary: m)
  case Nil
  then show ?case by simp
next
  case (Cons k ks)
  from attach_module_invariant[OF Cons.prems, of pt k]
  have "distinct (map fst (attach_module pt m k))"
    "\<forall>(k, c) \<in> set (attach_module pt m k). fresh_record c" by simp_all
  from Cons.IH[OF this] show ?case by simp
qed

lemma build_component_map_invariant:
  "distinct (map fst (build_component_map g pt)) \<and>
   (\<forall>(k, c) \<in> set (build_component_map g pt). fresh_record c)"
proof -
  have "distinct (map fst ([] :: component_map))" "\<forall>(k, c) \<in> set ([] :: component_map). fresh_record c"
    by simp_all
  from first_loop_invariant[OF this, of g]
  have "distinct (map fst (foldl (\<lambda>m (comp_id, cd). AList.update comp_id (new_component comp_id cd) m) [] g))"
    "\<forall>(k, c) \<in> set (foldl (\<lambda>m (comp_id, cd). AList.update comp_id (new_component comp_id cd) m) [] g).
      fresh_record c" by simp_all
  from second_loop_invariant[OF this] show ?thesis
    unfolding build_component_map_def Let_def .
qed

lemma count_list_replicate: "count_list (replicate n x) a = (if x = a then n else 0)"
  by (induction n) auto

lemma count_sources:
  "distinct (map fst cm) \<Longrightarrow> map_of cm a = Some ca \<Longrightarrow>
     count_list (sources cm b) a = count_list (depends_on ca) b"
proof (induction cm)
  case Nil
  then show ?case by simp
next
  case (Cons x cm)
  obtain k c where x: "x = (k, c)" by (cases x)
  have s: "sources (x # cm) b = replicate (count_list (depends_on c) b) k @ sources cm b"
    by (simp add: sources_def x)
  show ?case
  proof (cases "a = k")
    case True
    with Cons.prems have c: "c = ca" and "a \<notin> fst ` set cm" by (auto simp: x)
    then have "\<forall>(k', c') \<in> set cm. k' \<noteq> a" by force
    then have "a \<notin> set (sources cm b)" unfolding sources_def by auto
    then have "count_list (sources cm b) a = 0" by simp
    then show ?thesis unfolding s by (simp add: True c count_list_replicate)
  next
    case False
    with Cons.prems have "map_of cm a = Some ca" "distinct (map fst cm)" by (auto simp: x)
    from Cons.IH[OF this(2) this(1)] False show ?thesis unfolding s by (simp add: count_list_replicate)
  qed
qed

lemma snd_build_reverse:
  "snd (build_reverse_dependencies cm) = foldl set_dependents cm (foldl add_edges [] cm)"
  by (cases "cm = []") (simp_all add: build_reverse_dependencies_def Let_def)

lemma built_component:
  assumes "map_of (component_map (init_analyzer t g)) b = Some cb"
  defines "cm0 \<equiv> build_component_map g (parse_module_tree t)"
  shows "\<exists>c0. map_of cm0 b = Some c0 \<and> depends_on cb = depends_on c0 \<and>
           dependency_count cb = length (depends_on c0) \<and>
           depended_by cb = sources cm0 b \<and> dependent_count cb = length (sources cm0 b)"
proof -
  have d: "distinct (map fst (foldl add_edges [] cm0))"
    by (rule add_edges_distinct) simp
  have cm: "component_map (init_analyzer t g) = foldl set_dependents cm0 (foldl add_edges [] cm0)"
    unfolding component_map_init snd_build_reverse cm0_def ..
  from assms(1) obtain c0 where c0: "map_of cm0 b = Some c0"
    and cb: "cb = (case map_of (foldl add_edges [] cm0) b of None \<Rightarrow> c0
                   | Some ds \<Rightarrow> c0\<lparr>depended_by := ds, dependent_count := length ds\<rparr>)"
    unfolding cm map_of_foldl_set_dependents[OF d] by auto
  from c0 have "(b, c0) \<in> set cm0" by (rule map_of_SomeD)
  with build_component_map_invariant[of g "parse_module_tree t"] have f: "fresh_record c0"
    unfolding cm0_def by auto
  show ?thesis
  proof (cases "sources cm0 b = []")
    case True
    with cb have "cb = c0" by (simp add: reverse_map_lookup)
    with c0 f True show ?thesis by (simp add: fresh_record_def)
  next
    case False
    with cb have "cb = c0\<lparr>depended_by := sources cm0 b, dependent_count := length (sources cm0 b)\<rparr>"
      by (simp add: reverse_map_lookup)
    with c0 f show ?thesis by (simp add: fresh_record_def)
  qed
qed

text \<open>
  Claim C6. After construction, every record \<open>cb\<close> stored under an id \<open>b\<close> of the
  component map has \<open>dependency_count = len(depends_on)\<close> and
  \<open>dependent_count = len(depended_by)\<close>, and for every component \<open>a\<close> of the map, \<open>a\<close>
  occurs in \<open>cb.depended_by\<close> as many times as \<open>b\<close> occurs in the \<open>depends_on\<close> list of
  \<open>a\<close>: one occurrence per edge, duplicates preserved.
\<close>

theorem reverse_index_round_trip:
  assumes "map_of (component_map (init_analyzer t g)) b = Some cb"
  shows "dependency_count cb = length (depends_on cb) \<and>
         dependent_count cb = length (depended_by cb) \<and>
         (\<forall>a ca. map_of (component_map (init_analyzer t g)) a = Some ca \<longrightarrow>
            count_list (depended_by cb) a = count_list (depends_on ca) b)"
proof -
  define cm0 where "cm0 = build_component_map g (parse_module_tree t)"
  have d0: "distinct (map fst cm0)"
    unfolding cm0_def using build_component_map_invariant by simp
  from built_component[OF assms] obtain c0 where
    b: "map_of cm0 b = Some c0" "depends_on cb = depends_on c0"
       "dependency_count cb = length (depends_on c0)"
       "depended_by cb = sources cm0 b" "dependent_count cb = length (sources cm0 b)"
    unfolding cm0_def by blast
  have "count_list (depended_by cb) a = count_list (depends_on ca) b"
    if "map_of (component_map (init_analyzer t g)) a = Some ca" for a ca
  proof -
    from built_component[OF that] obtain a0 where
      a: "map_of cm0 a = Some a0" "depends_on ca = depends_on a0"
      unfolding cm0_def by blast
    from count_sources[OF d0 a(1), of b] show ?thesis by (simp add: b(4) a(2))
  qed
  with b show ?thesis by simp
qed

theorem reverse_index_round_trip_witness:
  "\<exists>cb ca. map_of (component_map example_analyzer) ''a.b.Y'' = Some cb \<and>
           map_of (component_map example_analyzer) ''a.X'' = Some ca \<and>
           dependency_count cb = length (depends_on cb) \<and>
           dependent_count cb = length (depended_by cb) \<and>
           count_list (depended_by cb) ''a.X'' = count_list (depends_on ca) ''a.b.Y'' \<and>
           count_list (depends_on ca) ''a.b.Y'' = 1"
proof -
  have h1: "map_of (component_map (init_analyzer example_tree example_graph)) ''a.b.Y'' =
     Some \<lparr>id_c = ''a.b.Y'', name = ''Y'', component_type = ''unknown'',
           file_path = [], relative_path = [], depends_on = [],
           depended_by = [''a.X''], module_c = Some ''a/b'',
           dependency_count = 0, dependent_count = 1\<rparr>" by code_simp
  have h2: "map_of (component_map (init_analyzer example_tree example_graph)) ''a.X'' =
     Some \<lparr>id_c = ''a.X'', name = ''X'', component_type = ''unknown'',
           file_path = [], relative_path = [], depends_on = [''a.b.Y''],
           depended_by = [], module_c = Some ''a'', dependency_count = 1,
           dependent_count = 0\<rparr>" by code_simp
  show ?thesis
    using reverse_index_round_trip[OF h1] h1 h2 by (simp add: example_analyzer_def)
qed

subsection \<open>Module-level classification\<close>

lemma dep_step_internal:
  "fst (dep_step cm mp c acc d) =
     fst acc @ (if map_option module_c (map_of cm d) = Some (Some mp)
                then [\<lparr>from_e = c, to_e = d, type_e = ''depends_on''\<rparr>] else [])"
  by (cases acc) (auto simp: dep_step_def split: option.splits)

lemma dep_step_external:
  "get_default (map_of (snd (dep_step cm mp c acc d)) m') [] =
     get_default (map_of (snd acc) m') [] @
       (if m' \<noteq> mp \<and> m' \<noteq> [] \<and> map_option module_c (map_of cm d) = Some (Some m')
        then [\<lparr>from_component = c, to_component = d\<rparr>] else [])"
  by (cases acc) (auto simp: dep_step_def lookup_append_to split: option.splits)

lemma dep_step_distinct:
  "distinct (map fst (snd acc)) \<Longrightarrow> distinct (map fst (snd (dep_step cm mp c acc d)))"
  by (cases acc) (auto simp: dep_step_def distinct_append_to split: option.splits)

lemma dep_fold_internal:
  "fst (foldl (dep_step cm mp c) acc ds) =
     fst acc @ map (\<lambda>d. \<lparr>from_e = c, to_e = d, type_e = ''depends_on''\<rparr>)
                (filter (\<lambda>d. map_option module_c (map_of cm d) = Some (Some mp)) ds)"
  by (induction ds arbitrary: acc) (simp_all add: dep_step_internal)

lemma dep_fold_external:
  "get_default (map_of (snd (foldl (dep_step cm mp c) acc ds)) m') [] =
     get_default (map_of (snd acc) m') [] @
       map (\<lambda>d. \<lparr>from_component = c, to_component = d\<rparr>)
         (filter (\<lambda>d. m' \<noteq> mp \<and> m' \<noteq> [] \<and>
                      map_option module_c (map_of cm d) = Some (Some m')) ds)"
  by (induction ds arbitrary: acc) (simp_all add: dep_step_external)

lemma dep_fold_distinct:
  "distinct (map fst (snd acc)) \<Longrightarrow>
     distinct (map fst (snd (foldl (dep_step cm mp c) acc ds)))"
  by (induction ds arbitrary: acc) (simp_all add: dep_step_distinct)

lemma comp_step_None: "map_of cm c = None \<Longrightarrow> comp_step cm mp acc c = acc"
  by (cases acc) (simp add: comp_step_def)

lemma comp_step_Some:
  "map_of cm c = Some ci \<Longrightarrow>
     comp_step cm mp acc c =
       (fst (foldl (dep_step cm mp c) (fst acc, fst (snd acc)) (depends_on ci)),
        snd (foldl (dep_step cm mp c) (fst acc, fst (snd acc)) (depends_on ci)),
        foldl (dependent_step cm mp c) (snd (snd acc)) (depended_by ci))"
proof -
  assume a: "map_of cm c = Some ci"
  then have "cm \<noteq> []" by auto
  with a show ?thesis
    by (cases acc) (simp add: comp_step_def Let_def case_prod_beta)
qed

lemma comp_step_internal:
  "fst (comp_step cm mp acc c) = fst acc @ internal_edges_of cm mp c"
proof (cases "map_of cm c")
  case None
  then show ?thesis by (simp add: comp_step_None internal_edges_of_def)
next
  case (Some ci)
  show ?thesis
    unfolding comp_step_Some[OF Some] by (simp add: dep_fold_internal internal_edges_of_def Some)
qed

lemma comp_step_external:
  "get_default (map_of (fst (snd (comp_step cm mp acc c))) m') [] =
     get_default (map_of (fst (snd acc)) m') [] @ external_rels_of cm mp m' c"
proof (cases "map_of cm c")
  case None
  then show ?thesis by (simp add: comp_step_None external_rels_of_def)
next
  case (Some ci)
  show ?thesis
    unfolding comp_step_Some[OF Some]
    using dep_fold_external[of cm mp c "(fst acc, fst (snd acc))" "depends_on ci" m']
    by (simp add: external_rels_of_def Some)
qed

lemma comp_step_distinct:
  assumes "distinct (map fst (fst (snd acc)))"
  shows "distinct (map fst (fst (snd (comp_step cm mp acc c))))"
proof (cases "map_of cm c")
  case None
  with assms show ?thesis by (simp add: comp_step_None)
next
  case (Some ci)
  show ?thesis
    unfolding comp_step_Some[OF Some]
    using dep_fold_distinct[of "(fst acc, fst (snd acc))" cm mp c "depends_on ci"] assms
    by simp
qed

lemma comp_fold_internal:
  "fst (foldl (comp_step cm mp) acc cs) = fst acc @ concat (map (internal_edges_of cm mp) cs)"
  by (induction cs arbitrary: acc) (simp_all add: comp_step_internal)

lemma comp_fold_external:
  "get_default (map_of (fst (snd (foldl (comp_step cm mp) acc cs))) m') [] =
     get_default (map_of (fst (snd acc)) m') [] @ concat (map (external_rels_of cm mp m') cs)"
  by (induction cs arbitrary: acc) (simp_all add: comp_step_external)

lemma comp_fold_distinct:
  "distinct (map fst (fst (snd acc))) \<Longrightarrow>
     distinct (map fst (fst (snd (foldl (comp_step cm mp) acc cs))))"
  by (induction cs arbitrary: acc) (simp_all add: comp_step_distinct)

lemma in_internal_edges_of:
  "\<lparr>from_e = c, to_e = d, type_e = ''depends_on''\<rparr> \<in> set (internal_edges_of cm mp c') \<longleftrightarrow>
     c' = c \<and> (\<exists>ci. map_of cm c = Some ci \<and> d \<in> set (depends_on ci) \<and>
                   map_option module_c (map_of cm d) = Some (Some mp))"
  by (cases "map_of cm c'") (auto simp: internal_edges_of_def)

lemma in_external_rels_of:
  "\<lparr>from_component = c, to_component = d\<rparr> \<in> set (external_rels_of cm mp m' c') \<longleftrightarrow>
     c' = c \<and> (\<exists>ci. map_of cm c = Some ci \<and> d \<in> set (depends_on ci) \<and>
                   m' \<noteq> mp \<and> m' \<noteq> [] \<and>
                   map_option module_c (map_of cm d) = Some (Some m'))"
  by (cases "map_of cm c'") (auto simp: external_rels_of_def)

lemma in_grouped:
  assumes "distinct (map fst ext)"
  shows "(\<exists>x \<in> set (map (\<lambda>(md, rels). \<lparr>target_module = md, relationships = rels\<rparr>) ext).
            target_module x = m' \<and> rel \<in> set (relationships x)) \<longleftrightarrow>
         rel \<in> set (get_default (map_of ext m') [])"
proof
  assume "\<exists>x \<in> set (map (\<lambda>(md, rels). \<lparr>target_module = md, relationships = rels\<rparr>) ext).
            target_module x = m' \<and> rel \<in> set (relationships x)"
  then obtain rels where "(m', rels) \<in> set ext" "rel \<in> set rels" by auto
  with assms have "map_of ext m' = Some rels" "rel \<in> set rels" by simp_all
  then show "rel \<in> set (get_default (map_of ext m') [])" by (simp add: get_default_def)
next
  assume a: "rel \<in> set (get_default (map_of ext m') [])"
  then obtain rels where r: "map_of ext m' = Some rels" "rel \<in> set rels"
    by (cases "map_of ext m'") (simp_all add: get_default_def)
  from r(1) have "(m', rels) \<in> set ext" by (rule map_of_SomeD)
  then have "\<lparr>target_module = m', relationships = rels\<rparr>
               \<in> set (map (\<lambda>(md, rels). \<lparr>target_module = md, relationships = rels\<rparr>) ext)"
    by force
  with r(2) show "\<exists>x \<in> set (map (\<lambda>(md, rels). \<lparr>target_module = md, relationships = rels\<rparr>) ext).
            target_module x = m' \<and> rel \<in> set (relationships x)" by force
qed

lemma analyze_module_lists:
  assumes "map_of (modules (parsed_tree self)) mp = Some mi"
  shows "\<exists>r. analyze_module_dependencies self mp = ModuleAnalysis r \<and>
           internal_dependencies_m r =
             fst (foldl (comp_step (component_map self) mp) ([], [], []) (components mi)) \<and>
           external_dependencies_m r =
             map (\<lambda>(md, rels). \<lparr>target_module = md, relationships = rels\<rparr>)
               (fst (snd (foldl (comp_step (component_map self) mp) ([], [], []) (components mi))))"
  using assms
  by (simp add: analyze_module_dependencies_def Let_def case_prod_beta)

text \<open>
  Claim C2, as amended. For a module path present in the parsed tree, take a dependency
  edge from a component \<open>c\<close> that the module lists and the component map holds, to a
  target \<open>d\<close> present in the component map. The edge is recorded as an internal edge
  exactly when the module of \<open>d\<close> is the queried path, and as an external relationship
  under the module \<open>m'\<close> exactly when \<open>m'\<close> is the module of \<open>d\<close>, differs from the
  queried path and is not the empty path. An edge whose target has no module, or has
  the empty path as module while the queried path is not empty, is therefore in
  neither list.
\<close>

theorem module_edges_classified:
  assumes "map_of (modules (parsed_tree self)) mp = Some mi"
      and "c \<in> set (components mi)"
      and "map_of (component_map self) c = Some ci"
      and "d \<in> set (depends_on ci)"
      and "map_of (component_map self) d = Some dc"
  shows "\<exists>r. analyze_module_dependencies self mp = ModuleAnalysis r \<and>
           (\<lparr>from_e = c, to_e = d, type_e = ''depends_on''\<rparr> \<in> set (internal_dependencies_m r)
              \<longleftrightarrow> module_c dc = Some mp) \<and>
           (\<forall>m'. (\<exists>x \<in> set (external_dependencies_m r). target_module x = m' \<and>
                      \<lparr>from_component = c, to_component = d\<rparr> \<in> set (relationships x))
              \<longleftrightarrow> module_c dc = Some m' \<and> m' \<noteq> mp \<and> m' \<noteq> [])"
proof -
  let ?cm = "component_map self"
  let ?F = "foldl (comp_step ?cm mp) ([], [], []) (components mi)"
  from analyze_module_lists[OF assms(1)] obtain r where
    r: "analyze_module_dependencies self mp = ModuleAnalysis r"
    and ri: "internal_dependencies_m r = fst ?F"
    and re: "external_dependencies_m r =
               map (\<lambda>(md, rels). \<lparr>target_module = md, relationships = rels\<rparr>) (fst (snd ?F))"
    by blast
  have dk: "distinct (map fst (fst (snd ?F)))" by (rule comp_fold_distinct) simp
  have int: "\<lparr>from_e = c, to_e = d, type_e = ''depends_on''\<rparr> \<in> set (internal_dependencies_m r)
              \<longleftrightarrow> module_c dc = Some mp"
    unfolding ri comp_fold_internal
    using assms(2-5) by (auto simp: in_internal_edges_of)
  have ext: "(\<exists>x \<in> set (external_dependencies_m r). target_module x = m' \<and>
                      \<lparr>from_component = c, to_component = d\<rparr> \<in> set (relationships x))
              \<longleftrightarrow> module_c dc = Some m' \<and> m' \<noteq> mp \<and> m' \<noteq> []" for m'
    unfolding re in_grouped[OF dk] comp_fold_external
    using assms(2-5) by (auto simp: in_external_rels_of get_default_def)
  from r int ext show ?thesis by blast
qed

theorem module_edges_classified_witness:
  "\<exists>r. analyze_module_dependencies example_analyzer ''a'' = ModuleAnalysis r \<and>
       \<lparr>from_e = ''a.X'', to_e = ''a.b.Y'', type_e = ''depends_on''\<rparr>
          \<notin> set (internal_dependencies_m r) \<and>
       (\<exists>x \<in> set (external_dependencies_m r). target_module x = ''a/b'' \<and>
           \<lparr>from_component = ''a.X'', to_component = ''a.b.Y''\<rparr> \<in> set (relationships x))"
proof -
  have h0: "map_of (modules (parsed_tree example_analyzer)) ''a'' =
    Some \<lparr>path = ''a'', components = [''a.X''],
            children = [(''a/b'', ModuleData [''a.b.Y''] [])],
            parent = None, is_leaf = False, level = 0\<rparr>" by code_simp
  have h1: "map_of (component_map example_analyzer) ''a.X'' =
     Some \<lparr>id_c = ''a.X'', name = ''X'', component_type = ''unknown'',
           file_path = [], relative_path = [], depends_on = [''a.b.Y''],
           depended_by = [], module_c = Some ''a'', dependency_count = 1,
           dependent_count = 0\<rparr>" by code_simp
  have h2: "map_of (component_map example_analyzer) ''a.b.Y'' =
     Some \<lparr>id_c = ''a.b.Y'', name = ''Y'', component_type = ''unknown'',
           file_path = [], relative_path = [], depends_on = [],
           depended_by = [''a.X''], module_c = Some ''a/b'',
           dependency_count = 0, dependent_count = 1\<rparr>" by code_simp
  from module_edges_classified[OF h0 _ h1 _ h2] obtain r where
    r: "analyze_module_dependencies example_analyzer ''a'' = ModuleAnalysis r"
       "\<lparr>from_e = ''a.X'', to_e = ''a.b.Y'', type_e = ''depends_on''\<rparr>
          \<in> set (internal_dependencies_m r) \<longleftrightarrow> Some ''a/b'' = Some ''a''"
       "\<And>m'. (\<exists>x \<in> set (external_dependencies_m r). target_module x = m' \<and>
                \<lparr>from_component = ''a.X'', to_component = ''a.b.Y''\<rparr> \<in> set (relationships x))
           \<longleftrightarrow> Some ''a/b'' = Some m' \<and> m' \<noteq> ''a'' \<and> m' \<noteq> []"
    by auto
  from r(2) have "\<lparr>from_e = ''a.X'', to_e = ''a.b.Y'', type_e = ''depends_on''\<rparr>
          \<notin> set (internal_dependencies_m r)" by simp
  moreover from r(3)[of "''a/b''"] have "\<exists>x \<in> set (external_dependencies_m r). target_module x = ''a/b'' \<and>
           \<lparr>from_component = ''a.X'', to_component = ''a.b.Y''\<rparr> \<in> set (relationships x)"
    by simp
  ultimately show ?thesis using r(1) by blast
qed

text \<open>
  The claim as stated fails: the edge from \<open>m.X\<close> to \<open>lib.Y\<close>, a component of the
  map that no module lists, is omitted from both lists.
\<close>

theorem module_edges_classified_counterexample:
  "map_option components (map_of (modules (parsed_tree unassigned_analyzer)) ''m'') = Some [''m.X''] \<and>
   map_option depends_on (map_of (component_map unassigned_analyzer) ''m.X'') = Some [''lib.Y''] \<and>
   map_option module_c (map_of (component_map unassigned_analyzer) ''lib.Y'') = Some None \<and>
   internal_of (analyze_module_dependencies unassigned_analyzer ''m'') = [] \<and>
   external_of (analyze_module_dependencies unassigned_analyzer ''m'') = []"
  by code_simp

subsection \<open>Cohesion score\<close>

lemma total_update:
  "sum_list (map (\<lambda>kv. length (snd kv)) (AList.update k (get_default (map_of d k) [] @ [v]) d)) =
     Suc (sum_list (map (\<lambda>kv. length (snd kv)) d))"
  by (induction d) (auto simp: get_default_def)

lemma total_append_to:
  "sum_list (map (\<lambda>kv. length (snd kv)) (append_to k v d)) =
     Suc (sum_list (map (\<lambda>kv. length (snd kv)) d))"
  unfolding append_to_def by (rule total_update)

lemma dep_step_total:
  "sum_list (map (\<lambda>kv. length (snd kv)) (snd (dep_step cm mp c acc d))) =
     sum_list (map (\<lambda>kv. length (snd kv)) (snd acc)) + (if external_target cm mp d then 1 else 0)"
  by (cases acc)
     (auto simp: dep_step_def external_target_def total_append_to split: option.splits)

lemma dep_fold_total:
  "sum_list (map (\<lambda>kv. length (snd kv)) (snd (foldl (dep_step cm mp c) acc ds))) =
     sum_list (map (\<lambda>kv. length (snd kv)) (snd acc)) + length (filter (external_target cm mp) ds)"
  by (induction ds arbitrary: acc) (simp_all add: dep_step_total)

lemma comp_step_total:
  "sum_list (map (\<lambda>kv. length (snd kv)) (fst (snd (comp_step cm mp acc c)))) =
     sum_list (map (\<lambda>kv. length (snd kv)) (fst (snd acc))) + length (external_targets_of cm mp c)"
proof (cases "map_of cm c")
  case None
  then show ?thesis by (simp add: comp_step_None external_targets_of_def)
next
  case (Some ci)
  show ?thesis
    unfolding comp_step_Some[OF Some]
    using dep_fold_total[of cm mp c "(fst acc, fst (snd acc))" "depends_on ci"]
    by (simp add: external_targets_of_def Some)
qed

lemma comp_fold_total:
  "sum_list (map (\<lambda>kv. length (snd kv)) (fst (snd (foldl (comp_step cm mp) acc cs)))) =
     sum_list (map (\<lambda>kv. length (snd kv)) (fst (snd acc))) +
     length (concat (map (external_targets_of cm mp) cs))"
  by (induction cs arbitrary: acc) (simp_all add: comp_step_total)

lemma grouped_total:
  "sum_list (map (\<lambda>d. length (relationships d))
      (map (\<lambda>(md, rels). \<lparr>target_module = md, relationships = rels\<rparr>) ext)) =
   sum_list (map (\<lambda>kv. length (snd kv)) ext)"
  by (induction ext) auto

lemma analyze_module_complexity:
  assumes "analyze_module_dependencies self mp = ModuleAnalysis r"
  shows "internal_edge_count (complexity_m r) = length (internal_dependencies_m r)"
    and "external_edge_count (complexity_m r) =
           sum_list (map (\<lambda>d. length (relationships d)) (external_dependencies_m r))"
    and "cohesion_score (complexity_m r) =
              (if internal_edge_count (complexity_m r) + external_edge_count (complexity_m r) > 0
               then IntTrueDiv (internal_edge_count (complexity_m r))
                      (internal_edge_count (complexity_m r) + external_edge_count (complexity_m r))
               else FloatZero)"
  using assms
  by (auto simp: analyze_module_dependencies_def Let_def case_prod_beta split: option.splits)

lemma rounded_ratio_bounds:
  assumes "mono rnd" and "rnd 0 = 0" and "rnd 1 = 1" and "0 < i + e"
  shows "0 \<le> rnd (real i / real (i + e)) \<and> rnd (real i / real (i + e)) \<le> 1"
proof -
  from assms(4) have "0 < real (i + e)" by (simp only: of_nat_0_less_iff)
  moreover have "real i \<le> real (i + e)" by (simp only: of_nat_le_iff le_add1)
  ultimately have lo: "0 \<le> real i / real (i + e)" and hi: "real i / real (i + e) \<le> 1"
    by (simp_all add: divide_le_eq_1 del: of_nat_add)
  have "rnd 0 \<le> rnd (real i / real (i + e))" by (rule monoD[OF assms(1) lo])
  moreover have "rnd (real i / real (i + e)) \<le> rnd 1" by (rule monoD[OF assms(1) hi])
  ultimately show ?thesis unfolding assms(2,3) by simp
qed

text \<open>
  Claim C3. For a module path present in the parsed tree the analysis is a proper
  record. Its internal edge count is the number of edges from the components of the
  module to targets of the component map whose module is the queried path, and its
  external edge count the number of such edges to targets with another, non-empty
  module; these are the lengths of the internal list and of the grouped external
  relationships. The cohesion score is the float \<open>internal / (internal + external)\<close>
  when that sum is positive and \<open>0.0\<close> when both counts are zero: its exact value is
  that quotient, and under every rounding function that is monotone and leaves 0 and 1
  unchanged, as rounding to the nearest double does, the score lies between 0 and 1.
\<close>

theorem cohesion_score_value_and_bounds:
  assumes "map_of (modules (parsed_tree self)) mp = Some mi"
      and "mono rnd" and "rnd 0 = 0" and "rnd 1 = 1"
  shows "\<exists>r. analyze_module_dependencies self mp = ModuleAnalysis r \<and>
           internal_edge_count (complexity_m r) =
              length (concat (map (internal_edges_of (component_map self) mp) (components mi))) \<and>
           external_edge_count (complexity_m r) =
              length (concat (map (external_targets_of (component_map self) mp) (components mi))) \<and>
           internal_edge_count (complexity_m r) = length (internal_dependencies_m r) \<and>
           external_edge_count (complexity_m r) =
              sum_list (map (\<lambda>d. length (relationships d)) (external_dependencies_m r)) \<and>
           cohesion_score (complexity_m r) =
              (if internal_edge_count (complexity_m r) + external_edge_count (complexity_m r) > 0
               then IntTrueDiv (internal_edge_count (complexity_m r))
                      (internal_edge_count (complexity_m r) + external_edge_count (complexity_m r))
               else FloatZero) \<and>
           float_value (\<lambda>x. x) (cohesion_score (complexity_m r)) =
              (if internal_edge_count (complexity_m r) + external_edge_count (complexity_m r) > 0
               then real (internal_edge_count (complexity_m r)) /
                    real (internal_edge_count (complexity_m r) + external_edge_count (complexity_m r))
               else 0) \<and>
           0 \<le> float_value rnd (cohesion_score (complexity_m r)) \<and>
           float_value rnd (cohesion_score (complexity_m r)) \<le> 1"
proof -
  let ?cm = "component_map self"
  let ?F = "foldl (comp_step ?cm mp) ([], [], []) (components mi)"
  from analyze_module_lists[OF assms(1)] obtain r where
    r: "analyze_module_dependencies self mp = ModuleAnalysis r"
    and ri: "internal_dependencies_m r = fst ?F"
    and re: "external_dependencies_m r =
               map (\<lambda>(md, rels). \<lparr>target_module = md, relationships = rels\<rparr>) (fst (snd ?F))"
    by blast
  note c = analyze_module_complexity[OF r]
  have i: "internal_edge_count (complexity_m r) =
             length (concat (map (internal_edges_of ?cm mp) (components mi)))"
    unfolding c(1) ri comp_fold_internal by simp
  have e: "external_edge_count (complexity_m r) =
             length (concat (map (external_targets_of ?cm mp) (components mi)))"
    unfolding c(2) re grouped_total comp_fold_total by simp
  have v: "float_value (\<lambda>x. x) (cohesion_score (complexity_m r)) =
              (if internal_edge_count (complexity_m r) + external_edge_count (complexity_m r) > 0
               then real (internal_edge_count (complexity_m r)) /
                    real (internal_edge_count (complexity_m r) + external_edge_count (complexity_m r))
               else 0)"
    unfolding c(3) by simp
  have b: "0 \<le> float_value rnd (cohesion_score (complexity_m r)) \<and>
           float_value rnd (cohesion_score (complexity_m r)) \<le> 1"
  proof (cases "internal_edge_count (complexity_m r) + external_edge_count (complexity_m r) > 0")
    case True
    from rounded_ratio_bounds[OF assms(2-4) True] True show ?thesis
      unfolding c(3) by simp
  next
    case False
    then show ?thesis unfolding c(3) by simp
  qed
  from r i e c v b show ?thesis by blast
qed

theorem cohesion_score_value_and_bounds_witness:
  "\<exists>r. analyze_module_dependencies mixed_analyzer ''m'' = ModuleAnalysis r \<and>
       internal_edge_count (complexity_m r) = 2 \<and>
       external_edge_count (complexity_m r) = 1 \<and>
       cohesion_score (complexity_m r) = IntTrueDiv 2 3 \<and>
       float_value (\<lambda>x. x) (cohesion_score (complexity_m r)) = 2 / 3 \<and>
       0 \<le> float_value (\<lambda>x. x) (cohesion_score (complexity_m r)) \<and>
       float_value (\<lambda>x. x) (cohesion_score (complexity_m r)) \<le> 1"
proof -
  have h: "map_of (modules (parsed_tree mixed_analyzer)) ''m'' =
    Some \<lparr>path = ''m'', components = [''m.X'', ''m.Y''], children = [],
            parent = None, is_leaf = True, level = 0\<rparr>" by code_simp
  have m: "mono (\<lambda>x::real. x)" by (simp add: mono_def)
  have i: "length (concat (map (internal_edges_of (component_map mixed_analyzer) ''m'')
             [''m.X'', ''m.Y''])) = 2" by code_simp
  have e: "length (concat (map (external_targets_of (component_map mixed_analyzer) ''m'')
             [''m.X'', ''m.Y''])) = 1" by code_simp
  from cohesion_score_value_and_bounds[OF h m, of ] i e show ?thesis
    by (auto simp: numeral_3_eq_3)
qed

end
